theory Spec2Isabelle
  imports Main "HOL-Library.Word" "HOL-Library.Multiset"
begin

section \<open>Values of the Go runtime\<close>

text \<open>
  A Go \<^verbatim>\<open>error\<close> value is modelled by the two things the program observes of it:
  the text \<^verbatim>\<open>err.Error()\<close> returns and whether \<^verbatim>\<open>os.IsNotExist(err)\<close> holds.
  A nil error is \<open>None\<close> of \<open>error option\<close>.
\<close>

datatype error = GoError (notExist: bool) (message: string)

definition errors_New :: "string \<Rightarrow> error" where
  "errors_New text = GoError False text"

definition Error :: "error \<Rightarrow> string" where
  "Error e = message e"

definition os_IsNotExist :: "error \<Rightarrow> bool" where
  "os_IsNotExist e = notExist e"

text \<open>
  A \<^verbatim>\<open>time.Time\<close> is an instant, counted in nanoseconds from the zero value
  \<^verbatim>\<open>time.Time{}\<close>; the instants the program compares (object and file
  modification times) carry no monotonic clock reading, so
  \<^verbatim>\<open>t.After(u)\<close> compares the instants.
\<close>

type_synonym time_Time = int

definition zeroTime :: time_Time where
  "zeroTime = 0"

definition After :: "time_Time \<Rightarrow> time_Time \<Rightarrow> bool" where
  "After t u = (u < t)"

section \<open>The data model of s3sync.go\<close>

record s3Path =
  bucket :: string
  bucketPrefix :: string

record fileInfo =
  err :: "error option"
  name :: string
  path :: string
  size' :: "64 word"
  lastModified :: time_Time

text \<open>The zero value \<^verbatim>\<open>fileInfo{}\<close> of the struct.\<close>

definition zeroFileInfo :: fileInfo where
  "zeroFileInfo = \<lparr>err = None, name = [], path = [], size' = 0, lastModified = zeroTime\<rparr>"

section \<open>strings.Join and path/filepath (Unix build: Separator is a slash, no volume names)\<close>

text \<open>
  The program calls these functions of the Go standard library, which is not part of
  the repository; the model follows the library's algorithms and agrees with its
  documented results.
\<close>

fun strings_Join :: "string list \<Rightarrow> string \<Rightarrow> string" where
  "strings_Join [] sep = []"
| "strings_Join [e] sep = e"
| "strings_Join (e # es) sep = e @ concat (map (\<lambda>s. sep @ s) es)"

definition Separator :: char where
  "Separator = CHR ''/''"

text \<open>
  \<^verbatim>\<open>filepath.Clean\<close>. The \<^verbatim>\<open>lazybuf\<close> the Go code writes to is a byte buffer of
  length \<^verbatim>\<open>out.w\<close>; here it is the list \<open>out\<close>, and \<^verbatim>\<open>out.w\<close> is its length.
  The read index \<^verbatim>\<open>r\<close> is kept as the unread rest of the path.
\<close>

function backtrack :: "string \<Rightarrow> nat \<Rightarrow> nat \<Rightarrow> nat" where
  "backtrack out dotdot w =
     (if w > dotdot \<and> out ! w \<noteq> Separator then backtrack out dotdot (w - 1) else w)"
  by pat_completeness auto
termination
  by (relation "measure (\<lambda>(out, dotdot, w). w)") auto

declare backtrack.simps [simp del]

function cleanLoop :: "bool \<Rightarrow> string \<Rightarrow> string \<Rightarrow> nat \<Rightarrow> string" where
  "cleanLoop rooted rest out dotdot =
     (case rest of
        [] \<Rightarrow> out
      | c # t \<Rightarrow>
          if c = Separator then cleanLoop rooted t out dotdot
          else if c = CHR ''.'' \<and> (t = [] \<or> hd t = Separator) then cleanLoop rooted t out dotdot
          else if c = CHR ''.'' \<and> hd t = CHR ''.'' \<and> (tl t = [] \<or> hd (tl t) = Separator) then
            (if length out > dotdot then
               cleanLoop rooted (tl t) (take (backtrack out dotdot (length out - 1)) out) dotdot
             else if \<not> rooted then
               cleanLoop rooted (tl t)
                 ((if length out > 0 then out @ [Separator] else out) @ ''..'')
                 (length ((if length out > 0 then out @ [Separator] else out) @ ''..''))
             else cleanLoop rooted (tl t) out dotdot)
          else
            cleanLoop rooted (dropWhile (\<lambda>x. x \<noteq> Separator) rest)
              ((if rooted \<and> length out \<noteq> 1 \<or> \<not> rooted \<and> length out \<noteq> 0
                then out @ [Separator] else out) @ takeWhile (\<lambda>x. x \<noteq> Separator) rest)
              dotdot)"
  by pat_completeness auto
termination
proof (relation "measure (\<lambda>(rooted, rest, out, dotdot). length rest)", goal_cases)
  case 1
  show ?case by simp
next
  case (2 rooted rest out dotdot c t)
  then show ?case by simp
next
  case (3 rooted rest out dotdot c t)
  then show ?case by simp
next
  case (4 rooted rest out dotdot c t)
  then show ?case by (cases t) simp_all
next
  case (5 rooted rest out dotdot c t)
  then show ?case by (cases t) simp_all
next
  case (6 rooted rest out dotdot c t)
  then show ?case by (cases t) simp_all
next
  case (7 rooted rest out dotdot c t)
  have "length (dropWhile (\<lambda>x. x \<noteq> Separator) t) \<le> length t"
    by (rule length_dropWhile_le)
  with 7 show ?case by simp
qed

declare cleanLoop.simps [simp del]

definition Clean :: "string \<Rightarrow> string" where
  "Clean p =
     (if p = [] then ''.''
      else
        let rooted = (hd p = Separator);
            out = (if rooted then cleanLoop rooted (tl p) [Separator] 1
                   else cleanLoop rooted p [] 0)
        in if out = [] then ''.'' else out)"

text \<open>\<^verbatim>\<open>filepath.Join\<close> of the elements \<open>elem\<close>: empty leading elements are skipped.\<close>

fun Join :: "string list \<Rightarrow> string" where
  "Join [] = []"
| "Join (e # elem) = (if e \<noteq> [] then Clean (strings_Join (e # elem) [Separator]) else Join elem)"

definition filepath_ToSlash :: "string \<Rightarrow> string" where
  "filepath_ToSlash p = p"

text \<open>\<^verbatim>\<open>filepath.Dir\<close>: \<open>dirLoop p k\<close> is the loop on \<^verbatim>\<open>i\<close>, with \<open>k = i + 1\<close>.\<close>

function dirLoop :: "string \<Rightarrow> nat \<Rightarrow> nat" where
  "dirLoop p k = (if k > 0 \<and> p ! (k - 1) \<noteq> Separator then dirLoop p (k - 1) else k)"
  by pat_completeness auto
termination
  by (relation "measure (\<lambda>(p, k). k)") auto

declare dirLoop.simps [simp del]

definition Dir :: "string \<Rightarrow> string" where
  "Dir p = Clean (take (dirLoop p (length p)) p)"

text \<open>
  \<^verbatim>\<open>filepath.Rel\<close>. Both paths are cleaned; a path that is a single dot has no
  elements. \<open>scan s i\<close> moves an index to the next separator; \<open>slice s a b\<close> is
  \<^verbatim>\<open>s[a:b]\<close>; \<open>relLoop\<close> skips the elements base and target share and positions
  \<^verbatim>\<open>base[b0:bi]\<close> and \<^verbatim>\<open>targ[t0:ti]\<close> at the first elements that differ (the
  target's is empty when the target is used up). A base element \<^verbatim>\<open>..\<close> there
  cannot be undone without knowing the directory, which is an error; otherwise the
  result climbs out of the base elements left and descends into the target elements
  left.
\<close>

function scan :: "string \<Rightarrow> nat \<Rightarrow> nat" where
  "scan s i = (if i < length s \<and> s ! i \<noteq> Separator then scan s (Suc i) else i)"
  by pat_completeness auto
termination
  by (relation "measure (\<lambda>(s, i). length s - i)") auto

declare scan.simps [simp del]

definition slice :: "string \<Rightarrow> nat \<Rightarrow> nat \<Rightarrow> string" where
  "slice s a b = take (b - a) (drop a s)"

lemma scan_ge: "i \<le> scan s i"
proof (induction s i rule: scan.induct)
  case (1 s i)
  show ?case
  proof (cases "i < length s \<and> s ! i \<noteq> Separator")
    case True
    with 1 have "Suc i \<le> scan s (Suc i)" by simp
    moreover from True have "scan s i = scan s (Suc i)" by (subst scan.simps) auto
    ultimately show ?thesis by simp
  next
    case False
    then have "scan s i = i" by (subst scan.simps) auto
    then show ?thesis by simp
  qed
qed

lemma scan_le: "i \<le> length s \<Longrightarrow> scan s i \<le> length s"
proof (induction s i rule: scan.induct)
  case (1 s i)
  show ?case
  proof (cases "i < length s \<and> s ! i \<noteq> Separator")
    case True
    then have "scan s i = scan s (Suc i)" by (subst scan.simps) auto
    moreover from True 1 have "scan s (Suc i) \<le> length s" by simp
    ultimately show ?thesis by simp
  next
    case False
    then have "scan s i = i" by (subst scan.simps) auto
    with 1 show ?thesis by simp
  qed
qed

function relLoop :: "string \<Rightarrow> string \<Rightarrow> nat \<times> nat \<times> nat \<times> nat \<Rightarrow> nat \<times> nat \<times> nat \<times> nat" where
  "relLoop base targ (b0, bi, t0, ti) =
     (if bi < length base then
        (if slice targ t0 (scan targ ti) \<noteq> slice base b0 (scan base bi)
         then (b0, scan base bi, t0, scan targ ti)
         else relLoop base targ
                (if scan base bi < length base then Suc (scan base bi) else scan base bi,
                 if scan base bi < length base then Suc (scan base bi) else scan base bi,
                 if scan targ ti < length targ then Suc (scan targ ti) else scan targ ti,
                 if scan targ ti < length targ then Suc (scan targ ti) else scan targ ti))
      else (b0, bi, t0, ti))"
  by pat_completeness auto
termination
proof (relation "measure (\<lambda>(base, targ, b0, bi, t0, ti). length base - bi)", goal_cases)
  case 1
  show ?case by simp
next
  case (2 base targ b0 bi t0 ti)
  have b: "bi \<le> scan base bi"
    by (rule scan_ge)
  have "scan base bi \<le> length base"
    using 2 by (simp add: scan_le)
  with 2 b show ?case by auto
qed

declare relLoop.simps [simp del]

definition Rel :: "string \<Rightarrow> string \<Rightarrow> error + string" where
  "Rel basepath targpath =
     (let base = Clean basepath; targ = Clean targpath in
      if targ = base then Inr ''.''
      else
        let base = (if base = ''.'' then [] else base);
            targ = (if targ = ''.'' then [] else targ);
            baseSlashed = (length base > 0 \<and> hd base = Separator);
            targSlashed = (length targ > 0 \<and> hd targ = Separator)
        in if baseSlashed \<noteq> targSlashed
           then Inl (errors_New (''Rel: can'' @ [CHR 0x27] @ ''t make '' @ targpath
                                 @ '' relative to '' @ basepath))
           else
             (case relLoop base targ (0, 0, 0, 0) of (b0, bi, t0, ti) \<Rightarrow>
                if slice base b0 bi = ''..''
                then Inl (errors_New (''Rel: can'' @ [CHR 0x27] @ ''t make '' @ targpath
                                      @ '' relative to '' @ basepath))
                else if b0 \<noteq> length base then
                  Inr (''..''
                       @ concat (replicate (count_list (slice base b0 (length base)) Separator)
                                   (Separator # ''..''))
                       @ (if t0 \<noteq> length targ then Separator # drop t0 targ else []))
                else Inr (drop t0 targ)))"

section \<open>The capabilities the engine calls\<close>

text \<open>
  The remote listing and retrieval operations, the file system and the URL parser are
  not part of the program: they are parameters of the model. Operations with an effect
  take the state of the world \<open>'w\<close> and return the new one together with their result.
  \<open>filepath_Walk\<close> gives the calls of the walk function in walk order (path, file info,
  error), as \<^verbatim>\<open>filepath.Walk\<close> would make them while the function returns nil.
  The key, size and modification time of a listed object are the values behind the
  pointers the program dereferences.
\<close>

record URL =
  Scheme :: string
  Host :: string
  Path :: string

record s3_Object =
  Key :: string
  Size :: "64 word"
  LastModified :: time_Time

record ListObjectsV2Input =
  Bucket :: string
  Prefix :: string
  ContinuationToken :: "string option"

record ListObjectsV2Output =
  Contents :: "s3_Object list"
  NextContinuationToken :: "string option"

record GetObjectInput =
  getBucket :: string
  getKey :: string

record os_FileInfo =
  IsDir :: bool
  statSize :: "64 word"
  ModTime :: time_Time

type_synonym walkCall = "string \<times> os_FileInfo option \<times> error option"

record 'w env =
  url_Parse :: "string \<Rightarrow> error + URL"
  ListObjectsV2 :: "ListObjectsV2Input \<Rightarrow> 'w \<Rightarrow> (error + ListObjectsV2Output) \<times> 'w"
  os_Stat :: "string \<Rightarrow> 'w \<Rightarrow> (error + os_FileInfo) \<times> 'w"
  filepath_Walk :: "string \<Rightarrow> 'w \<Rightarrow> walkCall list \<times> 'w"
  os_MkdirAll :: "string \<Rightarrow> 'w \<Rightarrow> error option \<times> 'w"
  os_Create :: "string \<Rightarrow> 'w \<Rightarrow> error option \<times> 'w"
  Download :: "string \<Rightarrow> GetObjectInput \<Rightarrow> 'w \<Rightarrow> error option \<times> 'w"

section \<open>Channels\<close>

text \<open>
  A channel is modelled by the sequence of records sent on it before it is closed; a
  function that sends on a channel returns the records it sends, in order.
\<close>

definition sendErrorInfoToChannel :: "error \<Rightarrow> fileInfo list" where
  "sendErrorInfoToChannel e = [zeroFileInfo\<lparr>err := Some e\<rparr>]"

definition sendFileInfoToChannel :: "string \<Rightarrow> string \<Rightarrow> os_FileInfo option \<Rightarrow> fileInfo list" where
  "sendFileInfoToChannel basePath pth stat =
     (case stat of
        None \<Rightarrow> []
      | Some st \<Rightarrow>
          if IsDir st then []
          else
            [\<lparr>err = None,
              name = (case Rel basePath pth of Inl e \<Rightarrow> [] | Inr relPath \<Rightarrow> relPath),
              path = pth,
              size' = statSize st,
              lastModified = ModTime st\<rparr>])"

section \<open>Remote Lister\<close>

fun listContents :: "s3Path \<Rightarrow> s3_Object list \<Rightarrow> fileInfo list" where
  "listContents pth [] = []"
| "listContents pth (object # objects) =
     (case Rel (bucketPrefix pth) (Key object) of
        Inl e \<Rightarrow> sendErrorInfoToChannel e @ listContents pth objects
      | Inr nm \<Rightarrow>
          \<lparr>err = None, name = nm, path = Key object, size' = Size object,
           lastModified = LastModified object\<rparr> # listContents pth objects)"

definition listS3FileWithToken ::
  "'w env \<Rightarrow> s3Path \<Rightarrow> string option \<Rightarrow> 'w \<Rightarrow> fileInfo list \<times> string option \<times> 'w" where
  "listS3FileWithToken m pth token w =
     (case ListObjectsV2 m
             \<lparr>Bucket = bucket pth, Prefix = bucketPrefix pth, ContinuationToken = token\<rparr> w of
        (Inl e, w') \<Rightarrow> (sendErrorInfoToChannel e, None, w')
      | (Inr list, w') \<Rightarrow> (listContents pth (Contents list), NextContinuationToken list, w'))"

text \<open>
  The loop of \<^verbatim>\<open>listS3Files\<close> runs until a page comes without a continuation token,
  which the listing capability need never do: the model counts the page requests it
  may still make, and is \<open>None\<close> when they run out.
\<close>

fun listS3Loop ::
  "nat \<Rightarrow> 'w env \<Rightarrow> s3Path \<Rightarrow> string option \<Rightarrow> 'w \<Rightarrow> (fileInfo list \<times> 'w) option" where
  "listS3Loop 0 m pth token w = None"
| "listS3Loop (Suc fuel) m pth token w =
     (case listS3FileWithToken m pth token w of
        (c, None, w') \<Rightarrow> Some (c, w')
      | (c, Some t, w') \<Rightarrow>
          (case listS3Loop fuel m pth (Some t) w' of
             None \<Rightarrow> None
           | Some (c', w'') \<Rightarrow> Some (c @ c', w'')))"

definition listS3Files :: "nat \<Rightarrow> 'w env \<Rightarrow> s3Path \<Rightarrow> 'w \<Rightarrow> (fileInfo list \<times> 'w) option" where
  "listS3Files fuel m pth w = listS3Loop fuel m pth None w"

section \<open>Local Lister\<close>

text \<open>
  \<open>walkLoop\<close> is \<^verbatim>\<open>filepath.Walk\<close> running the walk function of \<^verbatim>\<open>listLocalFiles\<close>:
  the function returns the error it is given, which ends the walk with that error, and
  sends the file's record otherwise.
\<close>

fun walkLoop :: "string \<Rightarrow> walkCall list \<Rightarrow> fileInfo list \<times> error option" where
  "walkLoop basePath [] = ([], None)"
| "walkLoop basePath ((pth, stat, e) # calls) =
     (case e of
        Some er \<Rightarrow> ([], Some er)
      | None \<Rightarrow>
          (case walkLoop basePath calls of
             (c, r) \<Rightarrow> (sendFileInfoToChannel basePath pth stat @ c, r)))"

definition listLocalFiles :: "'w env \<Rightarrow> string \<Rightarrow> 'w \<Rightarrow> fileInfo list \<times> 'w" where
  "listLocalFiles m basePath0 w =
     (let basePath = filepath_ToSlash basePath0 in
      case os_Stat m basePath w of
        (Inl e, w1) \<Rightarrow>
          if os_IsNotExist e then ([], w1) else (sendErrorInfoToChannel e, w1)
      | (Inr stat, w1) \<Rightarrow>
          (let c0 = sendFileInfoToChannel basePath basePath (Some stat) in
           if \<not> IsDir stat then (c0, w1)
           else
             (case filepath_Walk m basePath w1 of
                (calls, w2) \<Rightarrow>
                  (case walkLoop basePath calls of
                     (c, None) \<Rightarrow> (c0 @ c, w2)
                   | (c, Some e) \<Rightarrow> (c0 @ c @ sendErrorInfoToChannel e, w2)))))"

section \<open>Diff Filter\<close>

fun fileInfoChanToMapLoop ::
  "(string \<rightharpoonup> fileInfo) \<Rightarrow> fileInfo list \<Rightarrow> error + (string \<rightharpoonup> fileInfo)" where
  "fileInfoChanToMapLoop result [] = Inr result"
| "fileInfoChanToMapLoop result (file # files) =
     (case err file of
        Some e \<Rightarrow> Inl e
      | None \<Rightarrow> fileInfoChanToMapLoop (result(name file \<mapsto> file)) files)"

definition fileInfoChanToMap :: "fileInfo list \<Rightarrow> error + (string \<rightharpoonup> fileInfo)" where
  "fileInfoChanToMap files = fileInfoChanToMapLoop Map.empty files"

fun filterLoop :: "(string \<rightharpoonup> fileInfo) \<Rightarrow> fileInfo list \<Rightarrow> fileInfo list" where
  "filterLoop destFiles [] = []"
| "filterLoop destFiles (sourceInfo # sourceFileChan) =
     (case destFiles (name sourceInfo) of
        None \<Rightarrow> sourceInfo # filterLoop destFiles sourceFileChan
      | Some destInfo \<Rightarrow>
          if size' sourceInfo \<noteq> size' destInfo
             \<or> After (lastModified sourceInfo) (lastModified destInfo)
          then sourceInfo # filterLoop destFiles sourceFileChan
          else filterLoop destFiles sourceFileChan)"

definition filterFilesForSync :: "fileInfo list \<Rightarrow> fileInfo list \<Rightarrow> fileInfo list" where
  "filterFilesForSync sourceFileChan destFileChan =
     (case fileInfoChanToMap destFileChan of
        Inl e \<Rightarrow> sendErrorInfoToChannel e
      | Inr destFiles \<Rightarrow> filterLoop destFiles sourceFileChan)"

section \<open>Fetch Pipeline\<close>

definition download ::
  "'w env \<Rightarrow> fileInfo \<Rightarrow> s3Path \<Rightarrow> string \<Rightarrow> 'w \<Rightarrow> error option \<times> 'w" where
  "download m file sourcePath destPath w =
     (let targetFilename = Join [destPath, name file];
          targetDir = Dir targetFilename
      in case os_MkdirAll m targetDir w of
           (Some e, w1) \<Rightarrow> (Some e, w1)
         | (None, w1) \<Rightarrow>
             (case os_Create m targetFilename w1 of
                (Some e, w2) \<Rightarrow> (Some e, w2)
              | (None, w2) \<Rightarrow>
                  (case Download m targetFilename
                          \<lparr>getBucket = bucket sourcePath,
                           getKey = Join [bucketPrefix sourcePath, name file]\<rparr> w2 of
                     (Some e, w3) \<Rightarrow> (Some e, w3)
                   | (None, w3) \<Rightarrow> (None, w3))))"

text \<open>
  The body of the goroutine \<^verbatim>\<open>syncS3ToLocal\<close> starts for a forwarded record:
  \<open>errMsgs\<close> is the shared slice, appended to under the mutex.
\<close>

definition fetchTask ::
  "'w env \<Rightarrow> s3Path \<Rightarrow> string \<Rightarrow> fileInfo \<Rightarrow> string list \<Rightarrow> 'w \<Rightarrow> string list \<times> 'w" where
  "fetchTask m sourcePath destPath source errMsgs w =
     (case err source of
        Some e \<Rightarrow> (errMsgs @ [Error e], w)
      | None \<Rightarrow>
          (case download m source sourcePath destPath w of
             (Some e, w') \<Rightarrow> (errMsgs @ [Error e], w')
           | (None, w') \<Rightarrow> (errMsgs, w')))"

text \<open>
  The goroutines finish in an order the scheduler chooses. \<open>sched\<close> is that choice:
  its head \<open>k\<close> picks, among the tasks still pending, the one at index
  \<open>k mod length pending\<close> to run next; when \<open>sched\<close> is used up the pending tasks run in
  the order they were started. Each task runs as one step.
\<close>

function runTasks ::
  "'w env \<Rightarrow> s3Path \<Rightarrow> string \<Rightarrow> nat list \<Rightarrow> fileInfo list \<Rightarrow> string list \<Rightarrow> 'w
     \<Rightarrow> string list \<times> 'w" where
  "runTasks m sourcePath destPath sched [] errMsgs w = (errMsgs, w)"
| "runTasks m sourcePath destPath [] (source # pending) errMsgs w =
     (case fetchTask m sourcePath destPath source errMsgs w of
        (errMsgs', w') \<Rightarrow> runTasks m sourcePath destPath [] pending errMsgs' w')"
| "runTasks m sourcePath destPath (k # sched) (source # pending) errMsgs w =
     (let i = k mod length (source # pending) in
      case fetchTask m sourcePath destPath ((source # pending) ! i) errMsgs w of
        (errMsgs', w') \<Rightarrow>
          runTasks m sourcePath destPath sched
            (take i (source # pending) @ drop (Suc i) (source # pending)) errMsgs' w')"
  by pat_completeness auto
termination
  by (relation "measure (\<lambda>(m, sourcePath, destPath, sched, pending, errMsgs, w). length pending)")
    auto

text \<open>
  \<^verbatim>\<open>syncS3ToLocal\<close>. The listers, the filter and the fetch tasks run as goroutines;
  the model runs them in one of the orders the scheduler may choose: the remote
  listing (started first), then the local listing, which the filter drains before it
  forwards anything, then the fetch tasks in the order \<open>sched\<close> gives.
\<close>

definition syncS3ToLocal ::
  "'w env \<Rightarrow> nat list \<Rightarrow> nat \<Rightarrow> s3Path \<Rightarrow> string \<Rightarrow> 'w \<Rightarrow> (error option \<times> 'w) option" where
  "syncS3ToLocal m sched fuel sourcePath destPath w =
     (case listS3Files fuel m sourcePath w of
        None \<Rightarrow> None
      | Some (sourceFileChan, w1) \<Rightarrow>
          (case listLocalFiles m destPath w1 of
             (destFileChan, w2) \<Rightarrow>
               (case runTasks m sourcePath destPath sched
                       (filterFilesForSync sourceFileChan destFileChan) [] w2 of
                  (errMsgs, w3) \<Rightarrow>
                    if length errMsgs > 0
                    then Some (Some (errors_New (strings_Join errMsgs [CHR 0x0A])), w3)
                    else Some (None, w3))))"

section \<open>Sync Manager\<close>

definition strings_TrimPrefix :: "string \<Rightarrow> string \<Rightarrow> string" where
  "strings_TrimPrefix s pre = (if take (length pre) s = pre then drop (length pre) s else s)"

definition urlToS3Path :: "URL \<Rightarrow> error + s3Path" where
  "urlToS3Path u =
     (if Host u = [] then Inl (errors_New ''s3 url is missing bucket name'')
      else Inr \<lparr>bucket = Host u, bucketPrefix = strings_TrimPrefix (Path u) ''/''\<rparr>)"

definition isS3URL :: "URL \<Rightarrow> bool" where
  "isS3URL u = (Scheme u = ''s3'')"

definition syncS3ToS3 :: "s3Path \<Rightarrow> s3Path \<Rightarrow> error option" where
  "syncS3ToS3 sourcePath destPath = Some (errors_New ''S3 to S3 sync feature is not implemented'')"

definition syncLocalToS3 :: "string \<Rightarrow> s3Path \<Rightarrow> error option" where
  "syncLocalToS3 sourcePath destPath =
     Some (errors_New ''Local to S3 sync feature is not implemented'')"

definition Sync ::
  "'w env \<Rightarrow> nat list \<Rightarrow> nat \<Rightarrow> string \<Rightarrow> string \<Rightarrow> 'w \<Rightarrow> (error option \<times> 'w) option" where
  "Sync m sched fuel source dest w =
     (case url_Parse m source of
        Inl e \<Rightarrow> Some (Some e, w)
      | Inr sourceURL \<Rightarrow>
          (case url_Parse m dest of
             Inl e \<Rightarrow> Some (Some e, w)
           | Inr destURL \<Rightarrow>
               if isS3URL sourceURL then
                 (case urlToS3Path sourceURL of
                    Inl e \<Rightarrow> Some (Some e, w)
                  | Inr sourceS3Path \<Rightarrow>
                      if isS3URL destURL then
                        (case urlToS3Path destURL of
                           Inl e \<Rightarrow> Some (Some e, w)
                         | Inr destS3Path \<Rightarrow> Some (syncS3ToS3 sourceS3Path destS3Path, w))
                      else syncS3ToLocal m sched fuel sourceS3Path dest w)
               else if isS3URL destURL then
                 (case urlToS3Path destURL of
                    Inl e \<Rightarrow> Some (Some e, w)
                  | Inr destS3Path \<Rightarrow> Some (syncLocalToS3 source destS3Path, w))
               else Some (Some (errors_New ''local to local sync is not supported''), w)))"

section \<open>Scenarios and reference definitions\<close>

text \<open>
  \<open>pagesThenFailure m pth token w pages e wEnd\<close>: starting with \<open>token\<close> in the world
  \<open>w\<close>, the listing capability serves the pages \<open>pages\<close> one after the other, each
  with a continuation token that the next request presents, and then fails the next
  request with \<open>e\<close>, leaving the world \<open>wEnd\<close>.
\<close>

fun pagesThenFailure ::
  "'w env \<Rightarrow> s3Path \<Rightarrow> string option \<Rightarrow> 'w \<Rightarrow> ListObjectsV2Output list \<Rightarrow> error \<Rightarrow> 'w
     \<Rightarrow> bool" where
  "pagesThenFailure m pth token w [] e wEnd =
     (ListObjectsV2 m
        \<lparr>Bucket = bucket pth, Prefix = bucketPrefix pth, ContinuationToken = token\<rparr> w
      = (Inl e, wEnd))"
| "pagesThenFailure m pth token w (page # pages) e wEnd =
     (case ListObjectsV2 m
             \<lparr>Bucket = bucket pth, Prefix = bucketPrefix pth, ContinuationToken = token\<rparr> w of
        (Inl e', w') \<Rightarrow> False
      | (Inr list, w') \<Rightarrow>
          list = page \<and> NextContinuationToken page \<noteq> None
          \<and> pagesThenFailure m pth (NextContinuationToken page) w' pages e wEnd)"

text \<open>
  The text the specification asks of the combined error: the messages, in the order
  given, with a newline between each two.
\<close>

fun newlineJoined :: "string list \<Rightarrow> string" where
  "newlineJoined [] = []"
| "newlineJoined [x] = x"
| "newlineJoined (x # y # ys) = x @ CHR 0x0A # newlineJoined (y # ys)"

section \<open>Example inputs\<close>

definition rA :: fileInfo where
  "rA = \<lparr>err = None, name = ''a.txt'', path = ''pre/a.txt'', size' = 10, lastModified = 100\<rparr>"

definition rA2 :: fileInfo where
  "rA2 = \<lparr>err = None, name = ''a.txt'', path = ''pre/a.txt'', size' = 11, lastModified = 100\<rparr>"

definition rB :: fileInfo where
  "rB = \<lparr>err = None, name = ''dir/b.txt'', path = ''pre/dir/b.txt'', size' = 20,
          lastModified = 100\<rparr>"

definition lA :: fileInfo where
  "lA = \<lparr>err = None, name = ''a.txt'', path = ''/local/a.txt'', size' = 10,
          lastModified = 100\<rparr>"


definition requestFailed :: error where
  "requestFailed = errors_New ''RequestError: send request failed''"

definition sentinel :: fileInfo where
  "sentinel = \<lparr>err = Some requestFailed, name = [], path = [], size' = 0,
                lastModified = zeroTime\<rparr>"

definition examplePath :: s3Path where
  "examplePath = \<lparr>bucket = ''example-bucket'', bucketPrefix = ''pre''\<rparr>"

definition page1 :: ListObjectsV2Output where
  "page1 = \<lparr>Contents = [\<lparr>Key = ''pre/a.txt'', Size = 10, LastModified = 100\<rparr>,
                          \<lparr>Key = ''pre/dir/b.txt'', Size = 20, LastModified = 100\<rparr>],
             NextContinuationToken = Some ''t1''\<rparr>"

text \<open>
  An environment whose world is the number of calls made so far: the first listing
  request gives \<open>page1\<close> and every later one fails; only \<^verbatim>\<open>/local/file\<close> exists, a
  regular file; only the object \<^verbatim>\<open>pre/a.txt\<close> can be retrieved.
\<close>

definition exampleEnv :: "nat env" where
  "exampleEnv =
     \<lparr>url_Parse = (\<lambda>s. if s = ''s3://example-bucket/pre''
                        then Inr \<lparr>Scheme = ''s3'', Host = ''example-bucket'', Path = ''/pre''\<rparr>
                        else Inr \<lparr>Scheme = [], Host = [], Path = s\<rparr>),
      ListObjectsV2 = (\<lambda>input w. (case ContinuationToken input of
                                     None \<Rightarrow> Inr page1
                                   | Some t \<Rightarrow> Inl requestFailed, Suc w)),
      os_Stat = (\<lambda>p w. (if p = ''/local/file''
                         then Inr \<lparr>IsDir = False, statSize = 10, ModTime = 100\<rparr>
                         else Inl (GoError True ''stat: no such file or directory''), Suc w)),
      filepath_Walk = (\<lambda>p w. ([], Suc w)),
      os_MkdirAll = (\<lambda>p w. (None, Suc w)),
      os_Create = (\<lambda>p w. (None, Suc w)),
      Download = (\<lambda>f input w. (if getKey input = ''pre/a.txt'' then None
                                else Some (errors_New ''NoSuchKey''), Suc w))\<rparr>"

section \<open>Predicates used in the proofs\<close>

text \<open>
  \<open>noDotElem s\<close>: no element of the path \<open>s\<close> is a single dot, that is, a dot that
  starts \<open>s\<close> or follows a separator is followed by a character that is no separator.
  \<open>cleanInv\<close> is the invariant of the loop of \<^verbatim>\<open>Clean\<close>.
\<close>

definition noDotElem :: "string \<Rightarrow> bool" where
  "noDotElem s =
     (\<forall>i<length s. s ! i = CHR ''.'' \<and> (i = 0 \<or> s ! (i - 1) = Separator)
        \<longrightarrow> Suc i < length s \<and> s ! Suc i \<noteq> Separator)"

definition cleanInv :: "string \<Rightarrow> nat \<Rightarrow> bool" where
  "cleanInv out dotdot =
     (noDotElem out \<and> dotdot \<le> length out \<and> noDotElem (take dotdot out))"

text \<open>
  A path as the list of its elements: \<open>elems s\<close> are the non-empty pieces of \<open>s\<close>
  between separators, \<open>joined es\<close> puts a separator between each two elements, and
  \<open>okElem e\<close> says that \<open>e\<close> can be an element.
\<close>

function elems :: "string \<Rightarrow> string list" where
  "elems s =
     (case s of
        [] \<Rightarrow> []
      | c # t \<Rightarrow>
          if c = Separator then elems t
          else takeWhile (\<lambda>x. x \<noteq> Separator) s # elems (dropWhile (\<lambda>x. x \<noteq> Separator) s))"
  by pat_completeness auto
termination
proof (relation "measure length", goal_cases)
  case 1
  show ?case by simp
next
  case (2 s c t)
  then show ?case by simp
next
  case (3 s c t)
  have "length (dropWhile (\<lambda>x. x \<noteq> Separator) t) \<le> length t"
    by (rule length_dropWhile_le)
  with 3 show ?case by simp
qed

declare elems.simps [simp del]

fun joined :: "string list \<Rightarrow> string" where
  "joined [] = []"
| "joined [e] = e"
| "joined (e # f # es) = e @ Separator # joined (f # es)"

definition okElem :: "string \<Rightarrow> bool" where
  "okElem e = (e \<noteq> [] \<and> Separator \<notin> set e)"

text \<open>
  What the loop of \<^verbatim>\<open>Clean\<close> does, told on elements. The elements written so far
  are a stack: \<open>step rooted st e\<close> is the stack after the element \<open>e\<close> is read (a dot
  changes nothing, a double dot removes the last element if there is one to remove,
  is dropped at the root and is kept otherwise, any other element is added);
  \<open>rend rooted st\<close> is the buffer that holds the stack, \<open>dd rooted st\<close> the position in
  it that backtracking may not pass, and \<open>valid rooted st\<close> the stacks the loop can
  reach: double dots only at the bottom, and none in a rooted path.
\<close>

definition step :: "bool \<Rightarrow> string list \<Rightarrow> string \<Rightarrow> string list" where
  "step rooted st e =
     (if e = ''.'' then st
      else if e = ''..'' then
        (if st \<noteq> [] \<and> last st \<noteq> ''..'' then butlast st
         else if rooted then st else st @ [''..''])
      else st @ [e])"

definition rend :: "bool \<Rightarrow> string list \<Rightarrow> string" where
  "rend rooted st = (if rooted then Separator # joined st else joined st)"

definition dd :: "bool \<Rightarrow> string list \<Rightarrow> nat" where
  "dd rooted st = (if rooted then 1 else length (joined (takeWhile (\<lambda>e. e = ''..'') st)))"

definition valid :: "bool \<Rightarrow> string list \<Rightarrow> bool" where
  "valid rooted st =
     ((\<forall>e\<in>set st. okElem e \<and> e \<noteq> ''.'')
      \<and> (rooted \<longrightarrow> ''..'' \<notin> set st)
      \<and> ''..'' \<notin> set (dropWhile (\<lambda>e. e = ''..'') st))"

text \<open>
  \<open>isRooted s\<close>: the path starts with a separator. \<open>norm rooted es\<close> is the stack after
  all of \<open>es\<close> are read, and \<open>fin\<close> is the last step of \<^verbatim>\<open>Clean\<close>: the empty result
  is written as a dot.
\<close>

definition isRooted :: "string \<Rightarrow> bool" where
  "isRooted s = (s \<noteq> [] \<and> hd s = Separator)"

definition norm :: "bool \<Rightarrow> string list \<Rightarrow> string list" where
  "norm rooted es = foldl (step rooted) [] es"

definition fin :: "string \<Rightarrow> string" where
  "fin x = (if x = [] then ''.'' else x)"

text \<open>
  \<open>dropCommon bs ts\<close>: what is left of two element lists after the elements they
  start with in common; the loop of \<^verbatim>\<open>Rel\<close> computes it on the joined paths.
\<close>

fun dropCommon :: "string list \<Rightarrow> string list \<Rightarrow> string list \<times> string list" where
  "dropCommon (b # bs) (t # ts) = (if b = t then dropCommon bs ts else (b # bs, t # ts))"
| "dropCommon [] ts = ([], ts)"
| "dropCommon bs [] = (bs, [])"

section \<open>The Diff Filter\<close>

lemma filterLoop_filter:
  "filterLoop destFiles src =
     filter (\<lambda>s. case destFiles (name s) of
                   None \<Rightarrow> True
                 | Some d \<Rightarrow> size' s \<noteq> size' d \<or> After (lastModified s) (lastModified d)) src"
  by (induction src) (auto split: option.splits)

lemma mapLoop_Inr_no_err:
  "fileInfoChanToMapLoop m0 files = Inr m \<Longrightarrow> f \<in> set files \<Longrightarrow> err f = None"
  by (induction files arbitrary: m0) (auto split: option.splits)

lemma mapLoop_no_err_Inr:
  "\<forall>f\<in>set files. err f = None \<Longrightarrow> \<exists>m. fileInfoChanToMapLoop m0 files = Inr m"
  by (induction files arbitrary: m0) (auto split: option.splits)

lemma mapLoop_None:
  "fileInfoChanToMapLoop m0 files = Inr m \<Longrightarrow>
     (m n = None) = (m0 n = None \<and> n \<notin> name ` set files)"
  by (induction files arbitrary: m0) (auto split: option.splits if_splits)

lemma mapLoop_Some:
  "fileInfoChanToMapLoop m0 files = Inr m \<Longrightarrow> m n = Some d \<Longrightarrow>
     (d \<in> set files \<and> name d = n) \<or> (m0 n = Some d \<and> n \<notin> name ` set files)"
proof (induction files arbitrary: m0)
  case Nil
  then show ?case by simp
next
  case (Cons f files)
  from Cons.prems(1) have e: "err f = None"
    and r: "fileInfoChanToMapLoop (m0(name f \<mapsto> f)) files = Inr m"
    by (auto split: option.splits)
  from Cons.IH [OF r Cons.prems(2)] show ?case
    by (auto split: if_splits)
qed

lemma mapLoop_distinct:
  "fileInfoChanToMapLoop m0 files = Inr m \<Longrightarrow> distinct (map name files) \<Longrightarrow>
     d \<in> set files \<Longrightarrow> m (name d) = Some d"
proof (induction files arbitrary: m0)
  case Nil
  then show ?case by simp
next
  case (Cons f files)
  from Cons.prems(1) have r: "fileInfoChanToMapLoop (m0(name f \<mapsto> f)) files = Inr m"
    by (auto split: option.splits)
  show ?case
  proof (cases "d \<in> set files")
    case True
    with Cons.IH [OF r] Cons.prems(2) show ?thesis by simp
  next
    case False
    with Cons.prems(3) have df: "d = f" by simp
    from Cons.prems(2) have nf: "name f \<notin> name ` set files" by simp
    have "m (name f) \<noteq> None"
      using mapLoop_None [OF r, of "name f"] by simp
    then obtain d' where d': "m (name f) = Some d'" by auto
    from mapLoop_Some [OF r d'] nf have "d' = f" by (auto simp: image_iff)
    with d' df show ?thesis by simp
  qed
qed

lemma mapLoop_Inl:
  "fileInfoChanToMapLoop m0 files = Inl e \<Longrightarrow> \<exists>f\<in>set files. err f = Some e"
  by (induction files arbitrary: m0) (auto split: option.splits)

lemma mapLoop_err_Inl:
  "f \<in> set files \<Longrightarrow> err f \<noteq> None \<Longrightarrow> \<exists>e. fileInfoChanToMapLoop m0 files = Inl e"
  by (induction files arbitrary: m0) (auto split: option.splits)

lemma chanToMap_lookup:
  assumes "fileInfoChanToMap destFileChan = Inr destFiles"
  shows "destFiles n = Some d \<Longrightarrow> d \<in> set destFileChan \<and> name d = n"
    and "(destFiles n = None) = (\<forall>d\<in>set destFileChan. name d \<noteq> n)"
    and "distinct (map name destFileChan) \<Longrightarrow> d \<in> set destFileChan \<Longrightarrow> destFiles (name d) = Some d"
  using assms mapLoop_Some [of Map.empty destFileChan destFiles n d]
    mapLoop_None [of Map.empty destFileChan destFiles n]
    mapLoop_distinct [of Map.empty destFileChan destFiles d]
  unfolding fileInfoChanToMap_def by auto

lemma chanToMap_Inl:
  "fileInfoChanToMap files = Inl e \<Longrightarrow> \<exists>f\<in>set files. err f = Some e"
  unfolding fileInfoChanToMap_def by (rule mapLoop_Inl)

lemma chanToMap_err:
  "f \<in> set files \<Longrightarrow> err f \<noteq> None \<Longrightarrow> \<exists>e. fileInfoChanToMap files = Inl e"
  unfolding fileInfoChanToMap_def by (rule mapLoop_err_Inl)

text \<open>
  C1. When the local sequence drains into the index \<open>destFiles\<close> (each entry of which
  is a local record stored under its name), a remote record without an error sentinel
  is forwarded if and only if no local record shares its name, or its size differs
  from the size of the local record of that name, or its \<open>lastModified\<close> is strictly
  after that record's. The forwarded records without a sentinel are exactly those
  remote records, in their order.
\<close>

theorem diff_filter_forwards_iff:
  assumes "fileInfoChanToMap destFileChan = Inr destFiles"
  shows "(\<forall>n d. destFiles n = Some d \<longrightarrow> d \<in> set destFileChan \<and> name d = n)
    \<and> (\<forall>s\<in>set sourceFileChan. err s = None \<longrightarrow>
          (s \<in> set (filterFilesForSync sourceFileChan destFileChan)) =
          ((\<forall>d\<in>set destFileChan. name d \<noteq> name s)
           \<or> (\<exists>d. destFiles (name s) = Some d
                  \<and> (size' s \<noteq> size' d \<or> lastModified d < lastModified s))))
    \<and> filter (\<lambda>s. err s = None) (filterFilesForSync sourceFileChan destFileChan) =
        filter (\<lambda>s. err s = None
                  \<and> ((\<forall>d\<in>set destFileChan. name d \<noteq> name s)
                     \<or> (\<exists>d. destFiles (name s) = Some d
                            \<and> (size' s \<noteq> size' d \<or> lastModified d < lastModified s))))
          sourceFileChan"
proof -
  have cond: "(case destFiles (name s) of
                 None \<Rightarrow> True
               | Some d \<Rightarrow> size' s \<noteq> size' d \<or> After (lastModified s) (lastModified d)) =
              ((\<forall>d\<in>set destFileChan. name d \<noteq> name s)
               \<or> (\<exists>d. destFiles (name s) = Some d
                      \<and> (size' s \<noteq> size' d \<or> lastModified d < lastModified s)))" for s
    using chanToMap_lookup(2) [OF assms, of "name s"]
    by (cases "destFiles (name s)") (auto simp: After_def)
  have out: "filterFilesForSync sourceFileChan destFileChan =
      filter (\<lambda>s. (\<forall>d\<in>set destFileChan. name d \<noteq> name s)
                  \<or> (\<exists>d. destFiles (name s) = Some d
                         \<and> (size' s \<noteq> size' d \<or> lastModified d < lastModified s)))
        sourceFileChan"
    unfolding filterFilesForSync_def using assms by (simp add: filterLoop_filter cond)
  have 1: "\<forall>n d. destFiles n = Some d \<longrightarrow> d \<in> set destFileChan \<and> name d = n"
    using chanToMap_lookup(1) [OF assms] by blast
  have 2: "\<forall>s\<in>set sourceFileChan. err s = None \<longrightarrow>
          (s \<in> set (filterFilesForSync sourceFileChan destFileChan)) =
          ((\<forall>d\<in>set destFileChan. name d \<noteq> name s)
           \<or> (\<exists>d. destFiles (name s) = Some d
                  \<and> (size' s \<noteq> size' d \<or> lastModified d < lastModified s)))"
    by (subst out) simp
  have 3: "filter (\<lambda>s. err s = None) (filterFilesForSync sourceFileChan destFileChan) =
        filter (\<lambda>s. err s = None
                  \<and> ((\<forall>d\<in>set destFileChan. name d \<noteq> name s)
                     \<or> (\<exists>d. destFiles (name s) = Some d
                            \<and> (size' s \<noteq> size' d \<or> lastModified d < lastModified s))))
          sourceFileChan"
    by (subst out) (simp add: conj_commute)
  from 1 2 3 show ?thesis by blast
qed

theorem diff_filter_forwards_iff_witness:
  "fileInfoChanToMap [lA] = Inr [''a.txt'' \<mapsto> lA]
   \<and> filter (\<lambda>s. err s = None) (filterFilesForSync [rA, rB, rA2] [lA]) = [rB, rA2]"
proof -
  have h: "fileInfoChanToMap [lA] = Inr [''a.txt'' \<mapsto> lA]"
    by (simp add: fileInfoChanToMap_def lA_def)
  from diff_filter_forwards_iff [OF h, of "[rA, rB, rA2]"]
  have "filter (\<lambda>s. err s = None) (filterFilesForSync [rA, rB, rA2] [lA]) =
        filter (\<lambda>s. err s = None
                  \<and> ((\<forall>d\<in>set [lA]. name d \<noteq> name s)
                     \<or> (\<exists>d. [''a.txt'' \<mapsto> lA] (name s) = Some d
                            \<and> (size' s \<noteq> size' d \<or> lastModified d < lastModified s))))
          [rA, rB, rA2]" by blast
  also have "\<dots> = [rB, rA2]"
    by (simp add: rA_def rB_def rA2_def lA_def)
  finally show ?thesis using h by simp
qed

text \<open>
  C2, as stated, fails when the remote sequence carries an error sentinel: the
  hypothesis speaks of the other records only, and the sentinel is forwarded.
\<close>

theorem in_sync_forwards_nothing_counterexample:
  "\<not> ((\<forall>s\<in>set [sentinel]. err s = None \<longrightarrow>
          (\<exists>d\<in>set []. name d = name s \<and> size' d = size' s
                        \<and> \<not> lastModified d < lastModified s))
       \<longrightarrow> filterFilesForSync [sentinel] [] = [])"
  by (simp add: sentinel_def requestFailed_def filterFilesForSync_def fileInfoChanToMap_def)

text \<open>
  C2, amended. Local names being unique, if every remote record without a sentinel
  has a local record of the same name and size whose \<open>lastModified\<close> is not before
  its own, then every record the filter forwards is an error sentinel: no file is
  forwarded for download. With no sentinel in either sequence it forwards nothing.
\<close>

theorem in_sync_forwards_no_file:
  assumes insync: "\<forall>s\<in>set sourceFileChan. err s = None \<longrightarrow>
            (\<exists>d\<in>set destFileChan. name d = name s \<and> size' d = size' s
                                    \<and> \<not> lastModified d < lastModified s)"
    and uniq: "distinct (map name destFileChan)"
  shows "(\<forall>r\<in>set (filterFilesForSync sourceFileChan destFileChan). err r \<noteq> None)
    \<and> ((\<forall>s\<in>set sourceFileChan. err s = None) \<and> (\<forall>d\<in>set destFileChan. err d = None)
         \<longrightarrow> filterFilesForSync sourceFileChan destFileChan = [])"
proof (cases "fileInfoChanToMap destFileChan")
  case (Inl e)
  then have out: "filterFilesForSync sourceFileChan destFileChan = sendErrorInfoToChannel e"
    by (simp add: filterFilesForSync_def)
  from chanToMap_Inl [OF Inl] have "\<exists>d\<in>set destFileChan. err d \<noteq> None" by auto
  with out show ?thesis by (auto simp: sendErrorInfoToChannel_def)
next
  case (Inr destFiles)
  have out: "filterFilesForSync sourceFileChan destFileChan =
      filter (\<lambda>s. case destFiles (name s) of
                    None \<Rightarrow> True
                  | Some d \<Rightarrow> size' s \<noteq> size' d \<or> After (lastModified s) (lastModified d))
        sourceFileChan"
    using Inr by (simp add: filterFilesForSync_def filterLoop_filter)
  have skip: "\<not> (case destFiles (name s) of
                    None \<Rightarrow> True
                  | Some d \<Rightarrow> size' s \<noteq> size' d \<or> After (lastModified s) (lastModified d))"
    if "s \<in> set sourceFileChan" "err s = None" for s
  proof -
    from insync that obtain d where d: "d \<in> set destFileChan" "name d = name s"
      "size' d = size' s" "\<not> lastModified d < lastModified s" by blast
    from chanToMap_lookup(3) [OF Inr uniq d(1)] d(2) have "destFiles (name s) = Some d" by simp
    with d show ?thesis by (simp add: After_def)
  qed
  have 1: "\<forall>r\<in>set (filterFilesForSync sourceFileChan destFileChan). err r \<noteq> None"
    unfolding out using skip by auto
  have 2: "(\<forall>s\<in>set sourceFileChan. err s = None)
      \<longrightarrow> filterFilesForSync sourceFileChan destFileChan = []"
    unfolding out using skip by (auto simp: filter_empty_conv)
  from 1 2 show ?thesis by blast
qed

theorem in_sync_forwards_no_file_witness:
  "distinct (map name [lA]) \<and> filterFilesForSync [rA] [lA] = []
   \<and> set (filterFilesForSync [rA, sentinel] [lA]) = {sentinel}"
proof -
  have u: "distinct (map name [lA])" by simp
  have h1: "\<forall>s\<in>set [rA]. err s = None \<longrightarrow>
            (\<exists>d\<in>set [lA]. name d = name s \<and> size' d = size' s
                                    \<and> \<not> lastModified d < lastModified s)"
    by (simp add: rA_def lA_def)
  have h2: "\<forall>s\<in>set [rA, sentinel]. err s = None \<longrightarrow>
            (\<exists>d\<in>set [lA]. name d = name s \<and> size' d = size' s
                                    \<and> \<not> lastModified d < lastModified s)"
    by (simp add: rA_def lA_def sentinel_def requestFailed_def)
  have a: "filterFilesForSync [rA] [lA] = []"
    using in_sync_forwards_no_file [OF h1 u] by (simp add: rA_def lA_def)
  have b: "set (filterFilesForSync [rA, sentinel] [lA]) = {sentinel}"
    by (simp add: filterFilesForSync_def fileInfoChanToMap_def rA_def lA_def sentinel_def requestFailed_def After_def)
  from u a b show ?thesis by simp
qed

text \<open>
  C4. If the local sequence holds an error sentinel, the filter's output is exactly
  one record: a fresh sentinel that carries an error of the local sequence. No remote
  record is forwarded, whatever the remote sequence is.
\<close>

theorem local_error_aborts_filter:
  assumes "d \<in> set destFileChan" and "err d \<noteq> None"
  shows "\<exists>e. (\<exists>d'\<in>set destFileChan. err d' = Some e)
           \<and> filterFilesForSync sourceFileChan destFileChan =
               [\<lparr>err = Some e, name = [], path = [], size' = 0, lastModified = zeroTime\<rparr>]"
proof -
  from chanToMap_err [OF assms] obtain e where e: "fileInfoChanToMap destFileChan = Inl e"
    by blast
  from chanToMap_Inl [OF e] have "\<exists>d'\<in>set destFileChan. err d' = Some e" .
  moreover from e have "filterFilesForSync sourceFileChan destFileChan =
      [\<lparr>err = Some e, name = [], path = [], size' = 0, lastModified = zeroTime\<rparr>]"
    by (simp add: filterFilesForSync_def sendErrorInfoToChannel_def zeroFileInfo_def)
  ultimately show ?thesis by blast
qed

theorem local_error_aborts_filter_witness:
  "sentinel \<in> set [lA, sentinel] \<and> err sentinel \<noteq> None
   \<and> filterFilesForSync [rA, rB] [lA, sentinel] = [sentinel]"
proof -
  have 1: "sentinel \<in> set [lA, sentinel]" by simp
  have 2: "err sentinel \<noteq> None" by (simp add: sentinel_def requestFailed_def)
  from local_error_aborts_filter [OF 1 2, of "[rA, rB]"]
  show ?thesis by (auto simp: sentinel_def requestFailed_def lA_def)
qed




section \<open>Facts about Clean and Rel\<close>

lemma dot_neq_sep [simp]: "CHR ''.'' \<noteq> Separator" "Separator \<noteq> CHR ''.''"
  by (simp_all add: Separator_def)

lemma noDotElem_take_sep:
  assumes "noDotElem out" and "w < length out" and "out ! w = Separator"
  shows "noDotElem (take w out)"
  unfolding noDotElem_def
proof (intro allI impI)
  fix i
  assume i: "i < length (take w out)"
    and d: "take w out ! i = CHR ''.'' \<and> (i = 0 \<or> take w out ! (i - 1) = Separator)"
  from i assms(2) have iw: "i < w" by simp
  with d have "out ! i = CHR ''.'' \<and> (i = 0 \<or> out ! (i - 1) = Separator)" by simp
  with assms(1) iw assms(2) have n: "Suc i < length out" "out ! Suc i \<noteq> Separator"
    unfolding noDotElem_def by auto
  from n(2) assms(3) have "Suc i \<noteq> w" by auto
  with iw have "Suc i < w" by simp
  with n assms(2) show "Suc i < length (take w out) \<and> take w out ! Suc i \<noteq> Separator"
    by simp
qed

lemma noDotElem_Nil [simp]: "noDotElem []"
  by (simp add: noDotElem_def)

lemma noDotElem_sep [simp]: "noDotElem [Separator]"
  by (simp add: noDotElem_def)

lemma noDotElem_append_sep:
  assumes "noDotElem out"
  shows "noDotElem (out @ [Separator])"
  unfolding noDotElem_def
proof (intro allI impI)
  fix i
  assume i: "i < length (out @ [Separator])"
    and d: "(out @ [Separator]) ! i = CHR ''.''
            \<and> (i = 0 \<or> (out @ [Separator]) ! (i - 1) = Separator)"
  have il: "i < length out"
  proof (rule ccontr)
    assume "\<not> i < length out"
    with i have "i = length out" by simp
    with d show False by simp
  qed
  then have "i - 1 < length out" by simp
  with d il have "out ! i = CHR ''.'' \<and> (i = 0 \<or> out ! (i - 1) = Separator)"
    by (auto simp: nth_append)
  with assms il have "Suc i < length out" "out ! Suc i \<noteq> Separator"
    unfolding noDotElem_def by auto
  then show "Suc i < length (out @ [Separator]) \<and> (out @ [Separator]) ! Suc i \<noteq> Separator"
    by (simp add: nth_append)
qed

lemma noDotElem_append_elem:
  assumes "noDotElem out"
    and "elem \<noteq> []" and "Separator \<notin> set elem" and "elem \<noteq> ''.''"
  shows "noDotElem (out @ elem)"
  unfolding noDotElem_def
proof (intro allI impI)
  fix i
  assume i: "i < length (out @ elem)"
    and d: "(out @ elem) ! i = CHR ''.'' \<and> (i = 0 \<or> (out @ elem) ! (i - 1) = Separator)"
  show "Suc i < length (out @ elem) \<and> (out @ elem) ! Suc i \<noteq> Separator"
  proof (cases "i < length out")
    case True
    then have "i - 1 < length out" by simp
    with d True have "out ! i = CHR ''.'' \<and> (i = 0 \<or> out ! (i - 1) = Separator)"
      by (auto simp: nth_append)
    with assms(1) True have "Suc i < length out" "out ! Suc i \<noteq> Separator"
      unfolding noDotElem_def by auto
    then show ?thesis by (simp add: nth_append)
  next
    case False
    define j where "j = i - length out"
    from False i have j: "j < length elem" "i = length out + j" by (simp_all add: j_def)
    have j0: "j = 0"
    proof (rule ccontr)
      assume "j \<noteq> 0"
      then have "\<not> i - 1 < length out" "i - 1 - length out = j - 1" using j by simp_all
      with d \<open>j \<noteq> 0\<close> j have "elem ! (j - 1) = Separator" by (simp add: nth_append)
      moreover from j have "elem ! (j - 1) \<in> set elem" by simp
      ultimately show False using assms(3) by simp
    qed
    with j d have e0: "elem ! 0 = CHR ''.''" by (simp add: nth_append)
    have l2: "1 < length elem"
    proof (rule ccontr)
      assume "\<not> 1 < length elem"
      with assms(2) have "length elem = 1" by (cases elem) auto
      with e0 have "elem = ''.''" by (cases elem) auto
      with assms(4) show False by simp
    qed
    then have "elem ! 1 \<in> set elem" by simp
    with assms(3) have "elem ! 1 \<noteq> Separator" by auto
    with j j0 l2 show ?thesis by (simp add: nth_append)
  qed
qed

lemma backtrack_spec:
  "dotdot \<le> w \<Longrightarrow>
     dotdot \<le> backtrack out dotdot w \<and> backtrack out dotdot w \<le> w
     \<and> (backtrack out dotdot w = dotdot \<or> out ! backtrack out dotdot w = Separator)"
proof (induction out dotdot w rule: backtrack.induct)
  case (1 out dotdot w)
  show ?case
  proof (cases "w > dotdot \<and> out ! w \<noteq> Separator")
    case True
    then have "backtrack out dotdot w = backtrack out dotdot (w - 1)"
      by (subst backtrack.simps) simp
    moreover from True have "dotdot \<le> w - 1" by arith
    with True 1 have "dotdot \<le> backtrack out dotdot (w - 1) \<and> backtrack out dotdot (w - 1) \<le> w - 1
     \<and> (backtrack out dotdot (w - 1) = dotdot \<or> out ! backtrack out dotdot (w - 1) = Separator)"
      by blast
    ultimately show ?thesis by auto
  next
    case False
    then have "backtrack out dotdot w = w" by (subst backtrack.simps) auto
    with False 1 show ?thesis by auto
  qed
qed

lemma cleanInv_backtrack:
  assumes "cleanInv out dotdot" and "dotdot < length out"
  shows "cleanInv (take (backtrack out dotdot (length out - 1)) out) dotdot"
proof -
  define w where "w = backtrack out dotdot (length out - 1)"
  from assms(2) have "dotdot \<le> length out - 1" by simp
  from backtrack_spec [OF this, of out]
  have w: "dotdot \<le> w" "w \<le> length out - 1" "w = dotdot \<or> out ! w = Separator"
    by (simp_all add: w_def)
  from w(2) assms(2) have wl: "w < length out" by simp
  have "noDotElem (take w out)"
  proof (cases "w = dotdot")
    case True
    with assms(1) show ?thesis by (simp add: cleanInv_def)
  next
    case False
    with w(3) have "out ! w = Separator" by simp
    with assms(1) wl show ?thesis by (simp add: cleanInv_def noDotElem_take_sep)
  qed
  moreover from w(1) wl have "take dotdot (take w out) = take dotdot out"
    by (simp add: min_def)
  ultimately have "cleanInv (take w out) dotdot"
    using assms(1) w(1) wl by (simp add: cleanInv_def)
  then show ?thesis by (simp only: w_def)
qed

lemma cleanInv_append_elem:
  assumes "cleanInv out dotdot"
    and "elem \<noteq> []" and "Separator \<notin> set elem" and "elem \<noteq> ''.''"
  shows "cleanInv ((if b then out @ [Separator] else out) @ elem) dotdot"
proof -
  from assms(1) have "noDotElem (if b then out @ [Separator] else out)"
    by (simp add: cleanInv_def noDotElem_append_sep)
  from noDotElem_append_elem [OF this assms(2-4)] assms(1) show ?thesis
    by (auto simp: cleanInv_def)
qed

lemma cleanInv_append_dotdot:
  assumes "cleanInv out dotdot"
  shows "cleanInv ((if b then out @ [Separator] else out) @ ''..'')
           (length ((if b then out @ [Separator] else out) @ ''..''))"
proof -
  from assms(1) have "noDotElem (if b then out @ [Separator] else out)"
    by (simp add: cleanInv_def noDotElem_append_sep)
  then have "noDotElem ((if b then out @ [Separator] else out) @ ''..'')"
    by (rule noDotElem_append_elem) (simp_all add: Separator_def)
  then show ?thesis by (simp add: cleanInv_def)
qed

lemma cleanLoop_Nil: "cleanLoop rooted [] out dotdot = out"
  by (subst cleanLoop.simps) simp

lemma cleanLoop_sep: "cleanLoop rooted (Separator # t) out dotdot = cleanLoop rooted t out dotdot"
  by (subst cleanLoop.simps) simp

lemma cleanLoop_dot:
  assumes "c \<noteq> Separator" and "c = CHR ''.'' \<and> (t = [] \<or> hd t = Separator)"
  shows "cleanLoop rooted (c # t) out dotdot = cleanLoop rooted t out dotdot"
  using assms by (subst cleanLoop.simps) auto

lemma cleanLoop_dotdot:
  assumes "c \<noteq> Separator" and "\<not> (c = CHR ''.'' \<and> (t = [] \<or> hd t = Separator))"
    and "c = CHR ''.'' \<and> hd t = CHR ''.'' \<and> (tl t = [] \<or> hd (tl t) = Separator)"
  shows "cleanLoop rooted (c # t) out dotdot =
     (if length out > dotdot then
        cleanLoop rooted (tl t) (take (backtrack out dotdot (length out - 1)) out) dotdot
      else if \<not> rooted then
        cleanLoop rooted (tl t)
          ((if length out > 0 then out @ [Separator] else out) @ ''..'')
          (length ((if length out > 0 then out @ [Separator] else out) @ ''..''))
      else cleanLoop rooted (tl t) out dotdot)"
  using assms by (subst cleanLoop.simps) auto

lemma cleanLoop_elem:
  assumes "c \<noteq> Separator" and "\<not> (c = CHR ''.'' \<and> (t = [] \<or> hd t = Separator))"
    and "\<not> (c = CHR ''.'' \<and> hd t = CHR ''.'' \<and> (tl t = [] \<or> hd (tl t) = Separator))"
  shows "cleanLoop rooted (c # t) out dotdot =
     cleanLoop rooted (dropWhile (\<lambda>x. x \<noteq> Separator) (c # t))
       ((if rooted \<and> length out \<noteq> 1 \<or> \<not> rooted \<and> length out \<noteq> 0
         then out @ [Separator] else out) @ takeWhile (\<lambda>x. x \<noteq> Separator) (c # t))
       dotdot"
  using assms by (subst cleanLoop.simps) auto

lemma cleanLoop_noDotElem:
  "cleanInv out dotdot \<Longrightarrow> noDotElem (cleanLoop rooted rest out dotdot)"
proof (induction rooted rest out dotdot rule: cleanLoop.induct)
  case (1 rooted rest out dotdot)
  show ?case
  proof (cases rest)
    case Nil
    with "1.prems" show ?thesis by (simp add: cleanLoop_Nil cleanInv_def)
  next
    case (Cons c t)
    consider (sep) "c = Separator"
      | (dot) "c \<noteq> Separator" "c = CHR ''.'' \<and> (t = [] \<or> hd t = Separator)"
      | (dotdot) "c \<noteq> Separator" "\<not> (c = CHR ''.'' \<and> (t = [] \<or> hd t = Separator))"
          "c = CHR ''.'' \<and> hd t = CHR ''.'' \<and> (tl t = [] \<or> hd (tl t) = Separator)"
      | (elem) "c \<noteq> Separator" "\<not> (c = CHR ''.'' \<and> (t = [] \<or> hd t = Separator))"
          "\<not> (c = CHR ''.'' \<and> hd t = CHR ''.'' \<and> (tl t = [] \<or> hd (tl t) = Separator))"
      by blast
    then show ?thesis
    proof cases
      case sep
      from "1.IH"(1) [OF Cons sep "1.prems"] show ?thesis
        unfolding Cons sep cleanLoop_sep .
    next
      case dot
      from "1.IH"(2) [OF Cons dot(1) dot(2) "1.prems"] show ?thesis
        unfolding Cons cleanLoop_dot [OF dot] .
    next
      case dotdot
      show ?thesis
      proof (cases "length out > dotdot")
        case True
        from cleanInv_backtrack [OF "1.prems" True]
        have "noDotElem (cleanLoop rooted (tl t)
                 (take (backtrack out dotdot (length out - 1)) out) dotdot)"
          by (rule "1.IH"(3) [OF Cons dotdot(1) dotdot(2) dotdot(3) True])
        with True show ?thesis
          unfolding Cons cleanLoop_dotdot [OF dotdot] by simp
      next
        case False
        show ?thesis
        proof (cases rooted)
          case True
          from "1.IH"(5) [OF Cons dotdot(1) dotdot(2) dotdot(3) False _ "1.prems"] True False
          show ?thesis
            unfolding Cons cleanLoop_dotdot [OF dotdot] by simp
        next
          case nr: False
          from cleanInv_append_dotdot [OF "1.prems", of "length out > 0"]
          have "noDotElem (cleanLoop rooted (tl t)
                 ((if length out > 0 then out @ [Separator] else out) @ ''..'')
                 (length ((if length out > 0 then out @ [Separator] else out) @ ''..'')))"
            by (rule "1.IH"(4) [OF Cons dotdot(1) dotdot(2) dotdot(3) False nr])
          with False nr show ?thesis
            unfolding Cons cleanLoop_dotdot [OF dotdot] by simp
        qed
      qed
    next
      case elem
      define el where "el = takeWhile (\<lambda>x. x \<noteq> Separator) rest"
      from Cons elem(1) have el1: "el \<noteq> []" by (simp add: el_def)
      have el2: "Separator \<notin> set el"
        unfolding el_def by (auto dest: set_takeWhileD)
      have el3: "el \<noteq> ''.''"
      proof
        assume e: "el = ''.''"
        with Cons elem(1) have c: "c = CHR ''.''" by (simp add: el_def)
        from e Cons elem(1) have "takeWhile (\<lambda>x. x \<noteq> Separator) t = []"
          by (simp add: el_def)
        then have "t = [] \<or> hd t = Separator" by (cases t) (auto split: if_splits)
        with c elem(2) show False by simp
      qed
      from cleanInv_append_elem [OF "1.prems" el1 el2 el3,
          of "rooted \<and> length out \<noteq> 1 \<or> \<not> rooted \<and> length out \<noteq> 0"]
      have "noDotElem (cleanLoop rooted (dropWhile (\<lambda>x. x \<noteq> Separator) rest)
              ((if rooted \<and> length out \<noteq> 1 \<or> \<not> rooted \<and> length out \<noteq> 0
                then out @ [Separator] else out) @ takeWhile (\<lambda>x. x \<noteq> Separator) rest)
              dotdot)"
        unfolding el_def by (rule "1.IH"(6) [OF Cons elem(1) elem(2) elem(3)])
      then show ?thesis
        unfolding Cons cleanLoop_elem [OF elem] .
    qed
  qed
qed

lemma Clean_nonempty: "Clean p \<noteq> []"
  by (simp add: Clean_def Let_def)

lemma Clean_noDotElem: "Clean p = ''.'' \<or> noDotElem (Clean p)"
proof (cases "p = []")
  case True
  then show ?thesis by (simp add: Clean_def)
next
  case False
  have 1: "noDotElem (cleanLoop True (tl p) [Separator] 1)"
    by (rule cleanLoop_noDotElem) (simp add: cleanInv_def)
  have 2: "noDotElem (cleanLoop False p [] 0)"
    by (rule cleanLoop_noDotElem) (simp add: cleanInv_def)
  from False 1 2 show ?thesis
    by (auto simp: Clean_def Let_def)
qed

lemma scan_stop: "scan s i < length s \<Longrightarrow> s ! scan s i = Separator"
proof (induction s i rule: scan.induct)
  case (1 s i)
  show ?case
  proof (cases "i < length s \<and> s ! i \<noteq> Separator")
    case True
    then have e: "scan s i = scan s (Suc i)" by (subst scan.simps) simp
    with 1 True show ?thesis by simp
  next
    case False
    then have e: "scan s i = i" by (subst scan.simps) auto
    with 1(2) False show ?thesis by auto
  qed
qed

lemma relLoop_progress:
  "relLoop base targ (b0, bi, t0, ti) = (b0', bi', t0', ti') \<Longrightarrow> ti \<le> length targ \<Longrightarrow>
     (t0' = t0 \<and> b0' = b0)
     \<or> (ti \<le> t0' \<and> (ti < length targ \<longrightarrow> ti < t0') \<and> t0' \<le> length targ
        \<and> (t0' = length targ \<or> targ ! (t0' - 1) = Separator) \<and> bi < b0')"
proof (induction base targ "(b0, bi, t0, ti)" arbitrary: b0 bi t0 ti rule: relLoop.induct)
  case (1 base targ b0 bi t0 ti)
  show ?case
  proof (cases "bi < length base")
    case False
    with "1.prems"(1) show ?thesis by (subst (asm) relLoop.simps) auto
  next
    case c: True
    show ?thesis
    proof (cases "slice targ t0 (scan targ ti) \<noteq> slice base b0 (scan base bi)")
      case True
      with c "1.prems"(1) show ?thesis by (subst (asm) relLoop.simps) auto
    next
      case False
      define bn where "bn = (if scan base bi < length base then Suc (scan base bi) else scan base bi)"
      define tn where "tn = (if scan targ ti < length targ then Suc (scan targ ti) else scan targ ti)"
      from c False "1.prems"(1) have r: "relLoop base targ (bn, bn, tn, tn) = (b0', bi', t0', ti')"
        by (subst (asm) relLoop.simps) (simp add: bn_def tn_def)
      have sb: "bi \<le> scan base bi" "scan base bi \<le> length base"
        using c by (simp_all add: scan_ge scan_le)
      have st: "ti \<le> scan targ ti" "scan targ ti \<le> length targ"
        using "1.prems"(2) by (simp_all add: scan_ge scan_le)
      from sb c have bn: "bi < bn" by (auto simp: bn_def)
      from st have tn: "ti \<le> tn" "tn \<le> length targ" "ti < length targ \<longrightarrow> ti < tn"
        by (auto simp: tn_def)
      have tb: "tn = length targ \<or> targ ! (tn - 1) = Separator"
        using st scan_stop [of targ ti] by (auto simp: tn_def)
      from "1.hyps" [OF c False r [unfolded bn_def tn_def] tn(2) [unfolded tn_def]]
      have "(t0' = tn \<and> b0' = bn)
            \<or> (tn \<le> t0' \<and> (tn < length targ \<longrightarrow> tn < t0') \<and> t0' \<le> length targ
               \<and> (t0' = length targ \<or> targ ! (t0' - 1) = Separator) \<and> bn < b0')"
        by (simp add: bn_def tn_def)
      with bn tn tb show ?thesis by auto
    qed
  qed
qed

lemma Rel_same: "Rel p p = Inr ''.''"
  by (simp add: Rel_def)

lemma Rel_dot:
  assumes "Rel p k = Inr ''.''"
  shows "Clean k = Clean p"
proof (rule ccontr)
  assume ne: "Clean k \<noteq> Clean p"
  define base where "base = (if Clean p = ''.'' then [] else Clean p)"
  define targ where "targ = (if Clean k = ''.'' then [] else Clean k)"
  obtain b0 bi t0 ti where l: "relLoop base targ (0, 0, 0, 0) = (b0, bi, t0, ti)"
    by (cases "relLoop base targ (0, 0, 0, 0)") auto
  from assms ne l have res: "b0 = length base" "drop t0 targ = ''.''"
    by (auto simp: Rel_def Let_def base_def targ_def split: if_splits)
  have tne: "targ \<noteq> ''.''" by (simp add: targ_def)
  from res(2) have "targ \<noteq> []" by auto
  then have tl: "0 < length targ" and tc: "targ = Clean k"
    by (auto simp: targ_def split: if_splits)
  from relLoop_progress [OF l] tl consider
      (start) "t0 = 0"
    | (later) "0 < t0" "t0 \<le> length targ" "t0 = length targ \<or> targ ! (t0 - 1) = Separator"
    by auto
  then show False
  proof cases
    case start
    with res(2) tne show False by simp
  next
    case later
    from res(2) have "t0 \<noteq> length targ" by auto
    with later have sep: "targ ! (t0 - 1) = Separator" and lt: "t0 < length targ" by auto
    from res(2) have "length (drop t0 targ) = 1" by simp
    with lt have d2: "length targ = Suc t0" by simp
    from res(2) have "hd (drop t0 targ) = CHR ''.''" by simp
    with lt have d1: "targ ! t0 = CHR ''.''" by (simp add: hd_drop_conv_nth)
    from Clean_noDotElem [of k] tne tc have "noDotElem targ" by simp
    with d1 d2 sep lt later(1) show False
      unfolding noDotElem_def by auto
  qed
qed

lemma Rel_dot_iff: "(Rel p k = Inr ''.'') = (Clean k = Clean p)"
  using Rel_dot [of p k] by (auto simp: Rel_def)

subsection \<open>Paths as lists of elements\<close>

lemma elems_Nil [simp]: "elems [] = []"
  by (subst elems.simps) simp

lemma elems_sep [simp]: "elems (Separator # t) = elems t"
  by (subst elems.simps) simp

lemma elems_Cons:
  "c \<noteq> Separator \<Longrightarrow>
     elems (c # t) = (c # takeWhile (\<lambda>x. x \<noteq> Separator) t)
                      # elems (dropWhile (\<lambda>x. x \<noteq> Separator) t)"
  by (subst elems.simps) simp

lemma elems_ok: "e \<in> set (elems s) \<Longrightarrow> okElem e"
proof (induction s rule: length_induct)
  case (1 s)
  show ?case
  proof (cases s)
    case Nil
    with "1.prems" show ?thesis by simp
  next
    case (Cons c t)
    show ?thesis
    proof (cases "c = Separator")
      case True
      with Cons "1.prems" have "e \<in> set (elems t)" "length t < length s" by simp_all
      with "1.IH" show ?thesis by blast
    next
      case False
      have l: "length (dropWhile (\<lambda>x. x \<noteq> Separator) t) < length s"
        using Cons length_dropWhile_le [of "\<lambda>x. x \<noteq> Separator" t] by simp
      from False Cons "1.prems" consider
        "e = c # takeWhile (\<lambda>x. x \<noteq> Separator) t"
        | "e \<in> set (elems (dropWhile (\<lambda>x. x \<noteq> Separator) t))"
        by (auto simp: elems_Cons)
      then show ?thesis
      proof cases
        case 1
        with False show ?thesis by (auto simp: okElem_def dest: set_takeWhileD)
      next
        case 2
        with "1.IH" l show ?thesis by blast
      qed
    qed
  qed
qed

lemma takeWhile_to_sep:
  "Separator \<notin> set t \<Longrightarrow> takeWhile (\<lambda>x. x \<noteq> Separator) (t @ Separator # u) = t"
  by (induction t) auto

lemma dropWhile_to_sep:
  "Separator \<notin> set t \<Longrightarrow>
     dropWhile (\<lambda>x. x \<noteq> Separator) (t @ Separator # u) = Separator # u"
  by (induction t) auto

lemma takeWhile_no_sep:
  "Separator \<notin> set t \<Longrightarrow> takeWhile (\<lambda>x. x \<noteq> Separator) t = t"
  by (induction t) auto

lemma dropWhile_no_sep:
  "Separator \<notin> set t \<Longrightarrow> dropWhile (\<lambda>x. x \<noteq> Separator) t = []"
  by (induction t) auto

lemma elems_elem_append:
  assumes "okElem e" and "r = [] \<or> hd r = Separator"
  shows "elems (e @ r) = e # elems r"
proof -
  from assms(1) obtain c t where e: "e = c # t" "c \<noteq> Separator" "Separator \<notin> set t"
    by (cases e) (auto simp: okElem_def)
  have tw: "takeWhile (\<lambda>x. x \<noteq> Separator) (t @ r) = t"
  proof (cases r)
    case Nil
    with e(3) show ?thesis by (simp add: takeWhile_no_sep)
  next
    case (Cons d u)
    with assms(2) have "d = Separator" by simp
    with Cons e(3) show ?thesis by (simp add: takeWhile_to_sep)
  qed
  have dw: "dropWhile (\<lambda>x. x \<noteq> Separator) (t @ r) = r"
  proof (cases r)
    case Nil
    with e(3) show ?thesis by (simp add: dropWhile_no_sep)
  next
    case (Cons d u)
    with assms(2) have "d = Separator" by simp
    with Cons e(3) show ?thesis by (simp add: dropWhile_to_sep)
  qed
  from e(1,2) tw dw show ?thesis by (simp add: elems_Cons)
qed

lemma elems_elem [simp]: "okElem e \<Longrightarrow> elems e = [e]"
  using elems_elem_append [of e "[]"] by simp

lemma elems_append_sep: "elems (a @ Separator # b) = elems a @ elems b"
proof (induction a rule: length_induct)
  case (1 a)
  show ?case
  proof (cases a)
    case Nil
    then show ?thesis by simp
  next
    case (Cons c t)
    show ?thesis
    proof (cases "c = Separator")
      case True
      with Cons "1.IH" show ?thesis by simp
    next
      case False
      define e where "e = c # takeWhile (\<lambda>x. x \<noteq> Separator) t"
      define r where "r = dropWhile (\<lambda>x. x \<noteq> Separator) t"
      have a: "a = e @ r" by (simp add: Cons e_def r_def)
      have oe: "okElem e" using False by (auto simp: e_def okElem_def dest: set_takeWhileD)
      have rr: "r = [] \<or> hd r = Separator"
        unfolding r_def by (metis (mono_tags, lifting) dropWhile_eq_Nil_conv hd_dropWhile)
      have lr: "length r < length a" using a oe by (simp add: okElem_def)
      show ?thesis
      proof (cases r)
        case Nil
        with a oe show ?thesis
          using elems_elem_append [of e "Separator # b"] by simp
      next
        case (Cons d u)
        with rr have d: "d = Separator" by simp
        from "1.IH" lr have ih: "elems (r @ Separator # b) = elems r @ elems b" by blast
        have "elems (a @ Separator # b) = e # elems (r @ Separator # b)"
          using elems_elem_append [OF oe, of "r @ Separator # b"] a Cons d by simp
        also have "\<dots> = (e # elems r) @ elems b" using ih by simp
        also have "e # elems r = elems a"
          using elems_elem_append [OF oe rr] a by simp
        finally show ?thesis .
      qed
    qed
  qed
qed

lemma joined_snoc: "joined (st @ [e]) = (if st = [] then e else joined st @ Separator # e)"
  by (induction st rule: joined.induct) auto

lemma elems_joined: "\<forall>e\<in>set es. okElem e \<Longrightarrow> elems (joined es) = es"
proof (induction es rule: joined.induct)
  case 1
  then show ?case by simp
next
  case (2 e)
  then show ?case by simp
next
  case (3 e f es)
  then have "elems (joined (f # es)) = f # es" by simp
  with 3 show ?case by (simp add: elems_append_sep)
qed

lemma joined_Nil_iff: "\<forall>e\<in>set st. okElem e \<Longrightarrow> (joined st = []) = (st = [])"
  by (induction st rule: joined.induct) (auto simp: okElem_def)

lemma length_rend_rooted: "\<forall>e\<in>set st. okElem e \<Longrightarrow> (length (rend True st) = 1) = (st = [])"
  using joined_Nil_iff [of st] by (auto simp: rend_def)

lemma valid_Nil [simp]: "valid rooted []"
  by (simp add: valid_def)

lemma okElem_dotdot [simp]: "okElem ''..''"
  by (simp add: okElem_def Separator_def)

lemma valid_push:
  assumes "valid rooted st" and "okElem e" and "e \<noteq> ''.''" and "e \<noteq> ''..''"
  shows "valid rooted (st @ [e])"
  using assms by (auto simp: valid_def dropWhile_append)

lemma valid_pop:
  assumes "valid rooted st"
  shows "valid rooted (butlast st)"
proof -
  have 1: "set (butlast st) \<subseteq> set st" by (auto dest: in_set_butlastD)
  have "''..'' \<notin> set (dropWhile (\<lambda>e. e = ''..'') (butlast st))"
  proof (cases "st = []")
    case True
    then show ?thesis by simp
  next
    case False
    then have s: "st = butlast st @ [last st]" by simp
    from assms have "''..'' \<notin> set (dropWhile (\<lambda>e. e = ''..'') (butlast st @ [last st]))"
      using s by (simp add: valid_def)
    then show ?thesis
    proof (cases "\<forall>x\<in>set (butlast st). x = ''..''")
      case True
      then have "dropWhile (\<lambda>e. e = ''..'') (butlast st) = []"
        by (simp add: dropWhile_eq_Nil_conv)
      then show ?thesis by (simp del: dropWhile_eq_Nil_conv)
    next
      case False
      with \<open>''..'' \<notin> set (dropWhile (\<lambda>e. e = ''..'') (butlast st @ [last st]))\<close>
      show ?thesis by (auto simp: dropWhile_append)
    qed
  qed
  with assms 1 show ?thesis by (auto simp: valid_def)
qed

lemma valid_top_dotdot:
  assumes "valid rooted st" and "\<not> (st \<noteq> [] \<and> last st \<noteq> ''..'')"
  shows "\<forall>e\<in>set st. e = ''..''"
proof (cases "st = []")
  case True
  then show ?thesis by simp
next
  case False
  with assms(2) have l: "last st = ''..''" by simp
  show ?thesis
  proof (rule ccontr)
    assume "\<not> (\<forall>e\<in>set st. e = ''..'')"
    then have "dropWhile (\<lambda>e. e = ''..'') st \<noteq> []" by (simp add: dropWhile_eq_Nil_conv)
    then have "last (dropWhile (\<lambda>e. e = ''..'') st) = last st"
      by (metis last_appendR takeWhile_dropWhile_id)
    with l \<open>dropWhile (\<lambda>e. e = ''..'') st \<noteq> []\<close>
    have "''..'' \<in> set (dropWhile (\<lambda>e. e = ''..'') st)"
      by (metis last_in_set)
    with assms(1) show False by (simp add: valid_def)
  qed
qed

lemma valid_push_dotdot:
  assumes "valid False st" and "\<not> (st \<noteq> [] \<and> last st \<noteq> ''..'')"
  shows "valid False (st @ [''..''])"
proof -
  from valid_top_dotdot [OF assms] have "\<forall>e\<in>set st. e = ''..''" .
  then have "dropWhile (\<lambda>e. e = ''..'') (st @ [''..'']) = []"
    by (simp add: dropWhile_eq_Nil_conv)
  with assms(1) show ?thesis by (auto simp: valid_def Separator_def okElem_def)
qed

lemma valid_step:
  assumes "valid rooted st" and "okElem e"
  shows "valid rooted (step rooted st e)"
  using assms valid_push [of rooted st e] valid_pop [of rooted st] valid_push_dotdot [of st]
  by (auto simp: step_def)

lemma joined_Cons: "ys \<noteq> [] \<Longrightarrow> joined (e # ys) = e @ Separator # joined ys"
  by (cases ys) auto

lemma joined_append:
  "joined (xs @ ys) =
     (if xs = [] then joined ys else if ys = [] then joined xs
      else joined xs @ Separator # joined ys)"
  by (induction xs rule: joined.induct) (auto simp: joined_Cons)

lemma takeWhile_all: "\<forall>x\<in>set xs. P x \<Longrightarrow> takeWhile P xs = xs"
  by (induction xs) auto

lemma backtrack_elem:
  "Separator \<notin> set e \<Longrightarrow> dotdot \<le> length pre \<Longrightarrow> k \<le> length e \<Longrightarrow>
     backtrack (pre @ Separator # e) dotdot (length pre + k) = length pre"
proof (induction k)
  case 0
  then show ?case by (subst backtrack.simps) simp
next
  case (Suc k)
  then have "e ! k \<in> set e" by simp
  with Suc.prems(1) have "e ! k \<noteq> Separator" by auto
  then have "(pre @ Separator # e) ! (length pre + Suc k) \<noteq> Separator"
    by (simp add: nth_append)
  moreover from Suc.prems(2) have "dotdot < length pre + Suc k" by simp
  ultimately have "backtrack (pre @ Separator # e) dotdot (length pre + Suc k) =
      backtrack (pre @ Separator # e) dotdot (length pre + k)"
    by (subst backtrack.simps) simp
  with Suc show ?case by simp
qed

lemma backtrack_to_dotdot:
  "Separator \<notin> set e \<Longrightarrow> k < length e \<Longrightarrow>
     backtrack (pre @ e) (length pre) (length pre + k) = length pre"
proof (induction k)
  case 0
  then show ?case by (subst backtrack.simps) simp
next
  case (Suc k)
  then have "e ! Suc k \<in> set e" by simp
  with Suc.prems(1) have "e ! Suc k \<noteq> Separator" by auto
  then have "(pre @ e) ! (length pre + Suc k) \<noteq> Separator"
    by (simp add: nth_append)
  then have "backtrack (pre @ e) (length pre) (length pre + Suc k) =
      backtrack (pre @ e) (length pre) (length pre + k)"
    by (subst backtrack.simps) simp
  with Suc show ?case by simp
qed

lemma dd_push: "e \<noteq> ''..'' \<Longrightarrow> dd rooted (st @ [e]) = dd rooted st"
  by (auto simp: dd_def takeWhile_append takeWhile_all)

lemma dd_le: "dd rooted st \<le> length (rend rooted st)"
proof (cases rooted)
  case True
  then show ?thesis by (simp add: dd_def rend_def)
next
  case False
  have "joined st = joined (takeWhile (\<lambda>e. e = ''..'') st @ dropWhile (\<lambda>e. e = ''..'') st)"
    by simp
  also have "length \<dots> \<ge> length (joined (takeWhile (\<lambda>e. e = ''..'') st))"
    unfolding joined_append by auto
  finally show ?thesis using False by (simp add: dd_def rend_def)
qed

lemma rend_push:
  assumes "\<forall>x\<in>set st. okElem x"
  shows "(if rooted \<and> length (rend rooted st) \<noteq> 1 \<or> \<not> rooted \<and> length (rend rooted st) \<noteq> 0
          then rend rooted st @ [Separator] else rend rooted st) @ e
         = rend rooted (st @ [e])"
  using joined_Nil_iff [OF assms] by (auto simp: rend_def joined_snoc)

lemma rend_pop:
  assumes "valid rooted st" and "st \<noteq> []" and "last st \<noteq> ''..''"
  shows "dd rooted st < length (rend rooted st)"
    and "take (backtrack (rend rooted st) (dd rooted st) (length (rend rooted st) - 1))
           (rend rooted st) = rend rooted (butlast st)"
    and "dd rooted (butlast st) = dd rooted st"
proof -
  define st' where "st' = butlast st"
  define e where "e = last st"
  from assms(2) have st: "st = st' @ [e]" by (simp add: st'_def e_def)
  from assms(1) st have oe: "okElem e" and ok': "\<forall>x\<in>set st'. okElem x"
    by (auto simp: valid_def)
  then have ne: "e \<noteq> []" "Separator \<notin> set e" by (auto simp: okElem_def)
  from assms(3) have ed: "e \<noteq> ''..''" by (simp add: e_def)
  have d: "dd rooted st = dd rooted st'" using ed st by (simp add: dd_push)
  then show "dd rooted (butlast st) = dd rooted st" by (simp add: st'_def)
  define pre where "pre = rend rooted st'"
  have dl: "dd rooted st \<le> length pre" using d dd_le [of rooted st'] by (simp add: pre_def)
  have le: "length e - 1 < length e" using ne by (cases e) auto
  show "dd rooted st < length (rend rooted st)"
    using dl ne st by (cases e) (auto simp: rend_def joined_snoc pre_def)
  show "take (backtrack (rend rooted st) (dd rooted st) (length (rend rooted st) - 1))
           (rend rooted st) = rend rooted (butlast st)"
  proof (cases "st' = []")
    case False
    then have out: "rend rooted st = pre @ Separator # e"
      by (simp add: st rend_def joined_snoc pre_def)
    have "length (rend rooted st) - 1 = length pre + length e"
      by (simp add: out)
    with backtrack_elem [OF ne(2) dl, of "length e"] out
    have "backtrack (rend rooted st) (dd rooted st) (length (rend rooted st) - 1) = length pre"
      by simp
    then show ?thesis by (simp add: out pre_def st'_def)
  next
    case True
    then have out: "rend rooted st = pre @ e"
      by (simp add: st rend_def pre_def)
    from True ed have dp: "dd rooted st = length pre"
      by (simp add: st dd_def pre_def rend_def)
    have "length (rend rooted st) - 1 = length pre + (length e - 1)"
      using ne by (cases e) (auto simp: out)
    with backtrack_to_dotdot [OF ne(2) le, of pre] out dp
    have "backtrack (rend rooted st) (dd rooted st) (length (rend rooted st) - 1) = length pre"
      by simp
    then show ?thesis by (simp add: out pre_def st'_def)
  qed
qed

lemma rend_push_dotdot:
  assumes "valid False st" and "\<forall>e\<in>set st. e = ''..''"
  shows "\<not> dd False st < length (rend False st)"
    and "(if length (rend False st) > 0 then rend False st @ [Separator] else rend False st) @ ''..''
         = rend False (st @ [''..''])"
    and "length (rend False (st @ [''..''])) = dd False (st @ [''..''])"
proof -
  from assms(2) have t: "takeWhile (\<lambda>e. e = ''..'') st = st"
    by (rule takeWhile_all)
  show "\<not> dd False st < length (rend False st)" unfolding dd_def rend_def t by simp
  from assms(1) have ok: "\<forall>x\<in>set st. okElem x" by (simp add: valid_def)
  show "(if length (rend False st) > 0 then rend False st @ [Separator] else rend False st) @ ''..''
         = rend False (st @ [''..''])"
    using joined_Nil_iff [OF ok] by (auto simp: rend_def joined_snoc)
  from assms(2) have "takeWhile (\<lambda>e. e = ''..'') (st @ [''..'']) = st @ [''..'']"
    by (intro takeWhile_all) auto
  then show "length (rend False (st @ [''..''])) = dd False (st @ [''..''])"
    unfolding dd_def rend_def by (simp del: takeWhile_eq_all_conv takeWhile_append2)
qed

lemma step_dot: "step rooted st ''.'' = st"
  by (simp add: step_def)

lemma step_dotdot:
  "step rooted st ''..'' =
     (if st \<noteq> [] \<and> last st \<noteq> ''..'' then butlast st
      else if rooted then st else st @ [''..''])"
  by (simp add: step_def)

lemma step_elem: "e \<noteq> ''.'' \<Longrightarrow> e \<noteq> ''..'' \<Longrightarrow> step rooted st e = st @ [e]"
  by (simp add: step_def)

lemma cleanLoop_refines:
  "valid rooted st \<Longrightarrow>
     cleanLoop rooted rest (rend rooted st) (dd rooted st)
       = rend rooted (foldl (step rooted) st (elems rest))"
proof (induction rest arbitrary: st rule: length_induct)
  case (1 rest)
  note v = "1.prems"
  from v have ok: "\<forall>x\<in>set st. okElem x" by (simp add: valid_def)
  show ?case
  proof (cases rest)
    case Nil
    then show ?thesis by (simp add: cleanLoop_Nil)
  next
    case (Cons c t)
    consider (sep) "c = Separator"
      | (dot) "c \<noteq> Separator" "c = CHR ''.'' \<and> (t = [] \<or> hd t = Separator)"
      | (dotdot) "c \<noteq> Separator" "\<not> (c = CHR ''.'' \<and> (t = [] \<or> hd t = Separator))"
          "c = CHR ''.'' \<and> hd t = CHR ''.'' \<and> (tl t = [] \<or> hd (tl t) = Separator)"
      | (elem) "c \<noteq> Separator" "\<not> (c = CHR ''.'' \<and> (t = [] \<or> hd t = Separator))"
          "\<not> (c = CHR ''.'' \<and> hd t = CHR ''.'' \<and> (tl t = [] \<or> hd (tl t) = Separator))"
      by blast
    then show ?thesis
    proof cases
      case sep
      from "1.IH" Cons v have "cleanLoop rooted t (rend rooted st) (dd rooted st)
          = rend rooted (foldl (step rooted) st (elems t))" by simp
      then show ?thesis by (simp add: Cons sep cleanLoop_sep)
    next
      case dot
      have e: "elems rest = ''.'' # elems t"
        using elems_elem_append [of "''.''" t] dot Cons by (simp add: okElem_def Separator_def)
      from "1.IH" Cons v have "cleanLoop rooted t (rend rooted st) (dd rooted st)
          = rend rooted (foldl (step rooted) st (elems t))" by simp
      then show ?thesis
        unfolding Cons cleanLoop_dot [OF dot] e [unfolded Cons] by (simp add: step_dot)
    next
      case dotdot
      from dotdot(2,3) obtain u where t: "t = CHR ''.'' # u" "u = [] \<or> hd u = Separator"
        by (cases t) auto
      have e: "elems rest = ''..'' # elems u"
        using elems_elem_append [of "''..''" u] dotdot t Cons by simp
      have lu: "length u < length rest" by (simp add: Cons t)
      show ?thesis
      proof (cases "st \<noteq> [] \<and> last st \<noteq> ''..''")
        case True
        then have st: "st \<noteq> []" "last st \<noteq> ''..''" by simp_all
        note p = rend_pop [OF v st]
        from "1.IH" lu valid_pop [OF v]
        have "cleanLoop rooted u (rend rooted (butlast st)) (dd rooted (butlast st))
          = rend rooted (foldl (step rooted) (butlast st) (elems u))" by blast
        with p True show ?thesis
          unfolding Cons cleanLoop_dotdot [OF dotdot] e [unfolded Cons]
          by (simp add: step_dotdot t)
      next
        case False
        note a = valid_top_dotdot [OF v False]
        show ?thesis
        proof (cases rooted)
          case True
          with v a have "st = []" by (cases st) (auto simp: valid_def)
          moreover from "1.IH" lu v
          have "cleanLoop rooted u (rend rooted st) (dd rooted st)
            = rend rooted (foldl (step rooted) st (elems u))" by blast
          ultimately show ?thesis
            unfolding Cons cleanLoop_dotdot [OF dotdot] e [unfolded Cons]
            using True by (simp add: step_dotdot t rend_def dd_def)
        next
          case nr: False
          then have r: "rooted = False" by simp
          from v have v': "valid False st" by (simp add: r)
          note p = rend_push_dotdot [OF v' a]
          define out' where "out' = (if length (rend False st) > 0
              then rend False st @ [Separator] else rend False st) @ ''..''"
          have o1: "out' = rend False (st @ [''..''])" unfolding out'_def by (rule p(2))
          have o2: "length out' = dd False (st @ [''..''])" unfolding o1 by (rule p(3))
          from "1.IH" lu valid_push_dotdot [OF v' False]
          have ih: "cleanLoop False u (rend False (st @ [''..''])) (dd False (st @ [''..'']))
            = rend False (foldl (step False) (st @ [''..'']) (elems u))" by (simp add: r)
          have "cleanLoop False (c # t) (rend False st) (dd False st)
              = cleanLoop False (tl t) out' (length out')"
            unfolding cleanLoop_dotdot [OF dotdot] out'_def using p(1) by simp
          also have "\<dots> = rend False (foldl (step False) (st @ [''..'']) (elems u))"
            unfolding o2 unfolding o1 using ih by (simp add: t)
          finally show ?thesis
            using False unfolding r Cons e [unfolded Cons] by (auto simp: step_dotdot)
        qed
      qed
    next
      case elem
      define el where "el = takeWhile (\<lambda>x. x \<noteq> Separator) rest"
      define r where "r = dropWhile (\<lambda>x. x \<noteq> Separator) rest"
      have elc: "el = c # takeWhile (\<lambda>x. x \<noteq> Separator) t"
        using Cons elem(1) by (simp add: el_def)
      have oe: "okElem el"
        using elem(1) by (auto simp: elc okElem_def dest: set_takeWhileD)
      have el3: "el \<noteq> ''.''"
      proof
        assume "el = ''.''"
        with elc have "c = CHR ''.''" "takeWhile (\<lambda>x. x \<noteq> Separator) t = []" by simp_all
        then have "c = CHR ''.'' \<and> (t = [] \<or> hd t = Separator)"
          by (cases t) (auto split: if_splits)
        with elem(2) show False by simp
      qed
      have el4: "el \<noteq> ''..''"
      proof
        assume "el = ''..''"
        with elc have c: "c = CHR ''.''" and tw: "takeWhile (\<lambda>x. x \<noteq> Separator) t = ''.''"
          by auto
        from tw obtain u where u: "t = CHR ''.'' # u" "takeWhile (\<lambda>x. x \<noteq> Separator) u = []"
          by (cases t) (auto split: if_splits)
        from u(2) have "u = [] \<or> hd u = Separator" by (cases u) (auto split: if_splits)
        with c u(1) elem(3) show False by simp
      qed
      have rr: "r = [] \<or> hd r = Separator"
        unfolding r_def by (metis (mono_tags, lifting) dropWhile_eq_Nil_conv hd_dropWhile)
      have rest: "rest = el @ r" by (simp add: el_def r_def)
      have e: "elems rest = el # elems r"
        unfolding rest by (rule elems_elem_append [OF oe rr])
      have lr: "length r < length rest" using oe by (simp add: rest okElem_def)
      from "1.IH" lr valid_push [OF v oe el3 el4]
      have "cleanLoop rooted r (rend rooted (st @ [el])) (dd rooted (st @ [el]))
          = rend rooted (foldl (step rooted) (st @ [el]) (elems r))" by blast
      moreover have "cleanLoop rooted rest (rend rooted st) (dd rooted st)
          = cleanLoop rooted r (rend rooted (st @ [el])) (dd rooted st)"
        unfolding Cons cleanLoop_elem [OF elem]
        using rend_push [OF ok, of rooted el] by (simp add: el_def r_def Cons)
      ultimately show ?thesis
        using el3 el4 by (simp add: e step_elem dd_push)
    qed
  qed
qed

lemma Clean_abs: "Clean s = fin (rend (isRooted s) (norm (isRooted s) (elems s)))"
proof (cases "s = []")
  case True
  then show ?thesis by (simp add: Clean_def isRooted_def norm_def rend_def fin_def)
next
  case False
  show ?thesis
  proof (cases "hd s = Separator")
    case True
    with False have s: "s = Separator # tl s" by (cases s) auto
    have "cleanLoop True (tl s) (rend True []) (dd True [])
        = rend True (foldl (step True) [] (elems (tl s)))"
      by (rule cleanLoop_refines) simp
    moreover have "elems s = elems (tl s)" by (subst s) simp
    ultimately show ?thesis
      using False True by (simp add: Clean_def isRooted_def norm_def rend_def dd_def fin_def)
  next
    case nr: False
    have "cleanLoop False s (rend False []) (dd False [])
        = rend False (foldl (step False) [] (elems s))"
      by (rule cleanLoop_refines) simp
    then show ?thesis
      using False nr by (simp add: Clean_def isRooted_def norm_def rend_def dd_def fin_def)
  qed
qed

lemma valid_foldl:
  "valid rooted st \<Longrightarrow> \<forall>e\<in>set es. okElem e \<Longrightarrow> valid rooted (foldl (step rooted) st es)"
  by (induction es arbitrary: st) (auto simp: valid_step)

lemma valid_norm: "valid rooted (norm rooted (elems s))"
  unfolding norm_def by (rule valid_foldl) (auto simp: elems_ok)

lemma valid_append_left: "valid rooted (st @ xs) \<Longrightarrow> valid rooted st"
proof -
  assume v: "valid rooted (st @ xs)"
  have "''..'' \<notin> set (dropWhile (\<lambda>e. e = ''..'') st)"
  proof
    assume a: "''..'' \<in> set (dropWhile (\<lambda>e. e = ''..'') st)"
    have "\<not> (\<forall>x\<in>set st. x = ''..'')"
    proof
      assume "\<forall>x\<in>set st. x = ''..''"
      then have "dropWhile (\<lambda>e. e = ''..'') st = []" by (simp add: dropWhile_eq_Nil_conv)
      with a show False by (simp del: dropWhile_eq_Nil_conv)
    qed
    then have "dropWhile (\<lambda>e. e = ''..'') (st @ xs) = dropWhile (\<lambda>e. e = ''..'') st @ xs"
      by (auto simp: dropWhile_append)
    with a v show False by (simp add: valid_def)
  qed
  with v show ?thesis by (auto simp: valid_def)
qed

lemma foldl_valid_id: "valid rooted (st @ xs) \<Longrightarrow> foldl (step rooted) st xs = st @ xs"
proof (induction xs arbitrary: st)
  case Nil
  then show ?case by simp
next
  case (Cons x xs)
  from Cons.prems have v: "valid rooted ((st @ [x]) @ xs)" by simp
  have vs: "valid rooted (st @ [x])" by (rule valid_append_left [OF v])
  have "step rooted st x = st @ [x]"
  proof (cases "x = ''..''")
    case False
    moreover from vs have "x \<noteq> ''.''" by (simp add: valid_def)
    ultimately show ?thesis by (simp add: step_elem)
  next
    case True
    from vs True have nr: "\<not> rooted" by (auto simp: valid_def)
    have "\<forall>e\<in>set st. e = ''..''"
    proof (rule ccontr)
      assume "\<not> (\<forall>e\<in>set st. e = ''..'')"
      then have "dropWhile (\<lambda>e. e = ''..'') (st @ [x]) = dropWhile (\<lambda>e. e = ''..'') st @ [x]"
        by (auto simp: dropWhile_append)
      with vs True show False by (simp add: valid_def)
    qed
    then have "\<not> (st \<noteq> [] \<and> last st \<noteq> ''..'')"
      by (metis last_in_set)
    with True nr show ?thesis by (auto simp: step_dotdot)
  qed
  with Cons.IH [OF v] show ?case by simp
qed

lemma norm_valid_id: "valid rooted st \<Longrightarrow> norm rooted st = st"
  unfolding norm_def using foldl_valid_id [of rooted "[]" st] by simp

lemma foldl_pops:
  "''..'' \<notin> set bs \<Longrightarrow>
     foldl (step rooted) (cs @ bs) (replicate (length bs) ''..'') = cs"
proof (induction bs rule: rev_induct)
  case Nil
  then show ?case by simp
next
  case (snoc b bs)
  then have "b \<noteq> ''..''" by auto
  then have "step rooted (cs @ bs @ [b]) ''..'' = cs @ bs"
    by (simp add: step_dotdot butlast_append)
  with snoc show ?case by (simp add: replicate_app_Cons_same)
qed

lemma hd_joined: "es \<noteq> [] \<Longrightarrow> \<forall>e\<in>set es. okElem e \<Longrightarrow> hd (joined es) = hd (hd es)"
  by (induction es rule: joined.induct) (auto simp: okElem_def)

lemma isRooted_rend:
  assumes "\<forall>e\<in>set st. okElem e"
  shows "isRooted (rend rooted st) = rooted"
proof (cases rooted)
  case True
  then show ?thesis by (simp add: isRooted_def rend_def)
next
  case False
  show ?thesis
  proof (cases "st = []")
    case True
    with False show ?thesis by (simp add: isRooted_def rend_def)
  next
    case ne: False
    then have "hd st \<in> set st" by simp
    with assms have "okElem (hd st)" by blast
    then have "hd (hd st) \<noteq> Separator" by (cases "hd st") (auto simp: okElem_def)
    with hd_joined [OF ne assms] False show ?thesis by (simp add: isRooted_def rend_def)
  qed
qed

lemma elems_rend: "\<forall>e\<in>set st. okElem e \<Longrightarrow> elems (rend rooted st) = st"
  by (simp add: rend_def elems_joined)

subsection \<open>The loop of Rel on elements\<close>

lemma scan_elem:
  "Separator \<notin> set e \<Longrightarrow> R = [] \<or> hd R = Separator \<Longrightarrow>
     scan (X @ e @ R) (length X) = length X + length e"
proof (induction e arbitrary: X)
  case Nil
  then show ?case by (subst scan.simps) (cases R, auto simp: nth_append)
next
  case (Cons c e)
  from Cons.prems have c: "c \<noteq> Separator" by auto
  then have "scan (X @ (c # e) @ R) (length X) = scan (X @ (c # e) @ R) (Suc (length X))"
    by (subst scan.simps) (simp add: nth_append)
  also have "\<dots> = scan ((X @ [c]) @ e @ R) (length (X @ [c]))" by simp
  also have "\<dots> = length (X @ [c]) + length e"
    using Cons.prems by (intro Cons.IH) auto
  finally show ?case by simp
qed

lemma slice_mid: "slice (X @ e @ R) (length X) (length X + length e) = e"
  by (simp add: slice_def)

lemma scan_end: "scan s (length s) = length s"
  by (subst scan.simps) simp

lemma joined_tail:
  "okElem b \<Longrightarrow> \<exists>R. joined (b # bs) = b @ R \<and> (R = [] \<or> hd R = Separator)
       \<and> R = (if bs = [] then [] else Separator # joined bs)"
  by (cases bs) auto

lemma relLoop_common:
  assumes "\<forall>e\<in>set bs. okElem e" and "\<forall>e\<in>set ts. okElem e"
    and "relLoop (X @ joined bs) (Y @ joined ts) (length X, length X, length Y, length Y)
           = (b0, bi, t0, ti)"
    and "dropCommon bs ts = (bs', ts')"
  shows "b0 \<le> length (X @ joined bs) \<and> drop b0 (X @ joined bs) = joined bs'
       \<and> t0 \<le> length (Y @ joined ts) \<and> drop t0 (Y @ joined ts) = joined ts'
       \<and> slice (X @ joined bs) b0 bi = (if bs' = [] then [] else hd bs')"
  using assms
proof (induction bs ts arbitrary: X Y rule: dropCommon.induct)
  case (1 b bs t ts)
  define B where "B = X @ joined (b # bs)"
  define T where "T = Y @ joined (t # ts)"
  define RB where "RB = (if bs = [] then [] else Separator # joined bs)"
  define RT where "RT = (if ts = [] then [] else Separator # joined ts)"
  from "1.prems"(1,2) have ob: "okElem b" and ot: "okElem t" by simp_all
  have Bq: "B = X @ b @ RB" unfolding B_def RB_def by (cases bs) auto
  have Tq: "T = Y @ t @ RT" unfolding T_def RT_def by (cases ts) auto
  have rb: "RB = [] \<or> hd RB = Separator" by (simp add: RB_def)
  have rt: "RT = [] \<or> hd RT = Separator" by (simp add: RT_def)
  from ob ot have nb: "Separator \<notin> set b" "b \<noteq> []" and nt: "Separator \<notin> set t" "t \<noteq> []"
    by (simp_all add: okElem_def)
  have sB: "scan B (length X) = length X + length b"
    unfolding Bq by (rule scan_elem [OF nb(1) rb])
  have sT: "scan T (length Y) = length Y + length t"
    unfolding Tq by (rule scan_elem [OF nt(1) rt])
  have slB: "slice B (length X) (length X + length b) = b"
    unfolding Bq by (rule slice_mid)
  have slT: "slice T (length Y) (length Y + length t) = t"
    unfolding Tq by (rule slice_mid)
  have lt: "length X < length B" using nb by (simp add: Bq)
  note loop = "1.prems"(3) [folded B_def T_def]
  show ?case
  proof (cases "b = t")
    case False
    with loop lt sB sT slB slT have "(b0, bi, t0, ti)
        = (length X, length X + length b, length Y, length Y + length t)"
      by (subst (asm) relLoop.simps) auto
    with False "1.prems"(4) slB show ?thesis
      by (auto simp: B_def [symmetric] T_def [symmetric])
  next
    case True
    define X' where "X' = X @ b @ (if bs = [] then [] else [Separator])"
    define Y' where "Y' = Y @ t @ (if ts = [] then [] else [Separator])"
    have B': "B = X' @ joined bs" by (simp add: Bq RB_def X'_def)
    have T': "T = Y' @ joined ts" by (simp add: Tq RT_def Y'_def)
    have bn: "(if scan B (length X) < length B then Suc (scan B (length X))
               else scan B (length X)) = length X'"
      unfolding sB by (auto simp: Bq RB_def X'_def)
    have tn: "(if scan T (length Y) < length T then Suc (scan T (length Y))
               else scan T (length Y)) = length Y'"
      unfolding sT by (auto simp: Tq RT_def Y'_def)
    have cond: "slice T (length Y) (scan T (length Y)) = slice B (length X) (scan B (length X))"
      unfolding sB sT slB slT using True by simp
    have "relLoop B T (length X, length X, length Y, length Y)
        = relLoop B T (length X', length X', length Y', length Y')"
      by (subst relLoop.simps) (simp only: lt cond bn tn simp_thms if_True if_False)
    with loop
    have "relLoop B T (length X', length X', length Y', length Y') = (b0, bi, t0, ti)"
      by simp
    then have r: "relLoop (X' @ joined bs) (Y' @ joined ts)
        (length X', length X', length Y', length Y') = (b0, bi, t0, ti)"
      by (simp add: B' T')
    from "1.prems"(4) True have d: "dropCommon bs ts = (bs', ts')" by simp
    from "1.IH" [OF True _ _ r d] "1.prems"(1,2)
    show ?thesis by (simp add: B_def [symmetric] T_def [symmetric] B' [symmetric] T' [symmetric])
  qed
next
  case (2 ts)
  then show ?case by (subst (asm) relLoop.simps) (auto simp: slice_def)
next
  case (3 v va)
  define b where "b = v"
  define bs where "bs = va"
  define B where "B = X @ joined (b # bs)"
  define RB where "RB = (if bs = [] then [] else Separator # joined bs)"
  from "3.prems"(1) have ob: "okElem b" by (simp add: b_def)
  have Bq: "B = X @ b @ RB" unfolding B_def RB_def by (cases bs) auto
  have rb: "RB = [] \<or> hd RB = Separator" by (simp add: RB_def)
  from ob have nb: "Separator \<notin> set b" "b \<noteq> []" by (simp_all add: okElem_def)
  have sB: "scan B (length X) = length X + length b"
    unfolding Bq by (rule scan_elem [OF nb(1) rb])
  have slB: "slice B (length X) (length X + length b) = b"
    unfolding Bq by (rule slice_mid)
  have lt: "length X < length B" using nb by (simp add: Bq)
  from "3.prems"(3) have loop: "relLoop B Y (length X, length X, length Y, length Y)
      = (b0, bi, t0, ti)" by (simp add: B_def b_def bs_def)
  have "slice Y (length Y) (scan Y (length Y)) = []" by (simp add: slice_def)
  with loop lt sB slB nb have "(b0, bi, t0, ti)
      = (length X, length X + length b, length Y, scan Y (length Y))"
    by (subst (asm) relLoop.simps) auto
  with "3.prems"(4) slB show ?case
    by (auto simp: B_def b_def bs_def)
qed

lemma dropCommon_split:
  "dropCommon bs ts = (bs', ts') \<Longrightarrow> \<exists>cs. bs = cs @ bs' \<and> ts = cs @ ts'"
proof (induction bs ts rule: dropCommon.induct)
  case (1 b bs t ts)
  show ?case
  proof (cases "b = t")
    case True
    with 1 obtain cs where "bs = cs @ bs'" "ts = cs @ ts'" by auto
    with True have "b # bs = (b # cs) @ bs' \<and> t # ts = (b # cs) @ ts'" by simp
    then show ?thesis by blast
  next
    case False
    with 1 have "b # bs = [] @ bs' \<and> t # ts = [] @ ts'" by simp
    then show ?thesis by blast
  qed
qed auto

lemma valid_ok: "valid rooted st \<Longrightarrow> \<forall>e\<in>set st. okElem e"
  by (simp add: valid_def)

lemma rend_not_dot:
  assumes "valid rooted st"
  shows "rend rooted st \<noteq> ''.''"
proof
  assume a: "rend rooted st = ''.''"
  then have nr: "\<not> rooted" by (auto simp: rend_def Separator_def)
  with a have "joined st = ''.''" by (simp add: rend_def)
  then have "elems (joined st) = [''.'']" by (simp add: okElem_def Separator_def)
  with elems_joined [OF valid_ok [OF assms]] have "st = [''.'']" by simp
  with assms show False by (simp add: valid_def)
qed

lemma unfin:
  assumes "valid rooted st"
  shows "(if fin (rend rooted st) = ''.'' then [] else fin (rend rooted st)) = rend rooted st"
  using rend_not_dot [OF assms] by (auto simp: fin_def)

lemma relLoop_rooted:
  "relLoop (Separator # b) (Separator # t) (0, 0, 0, 0)
     = relLoop (Separator # b) (Separator # t) (1, 1, 1, 1)"
proof -
  have s: "scan (Separator # x) 0 = 0" for x by (subst scan.simps) simp
  show ?thesis
    by (subst relLoop.simps) (simp add: s slice_def)
qed

lemma count_sep_joined:
  "\<forall>e\<in>set es. okElem e \<Longrightarrow> es \<noteq> [] \<Longrightarrow> count_list (joined es) Separator = length es - 1"
proof (induction es rule: joined.induct)
  case 1
  then show ?case by simp
next
  case (2 e)
  then show ?case by (simp add: okElem_def)
next
  case (3 e f es)
  then have "count_list e Separator = 0" by (simp add: okElem_def)
  with 3 show ?case by simp
qed

lemma joined_ups:
  "joined (replicate (Suc m) ''..'') = ''..'' @ concat (replicate m (Separator # ''..''))"
  by (induction m) auto

lemma valid_rest_no_dotdot:
  assumes "valid rooted (cs @ bs)" and "bs \<noteq> [] \<longrightarrow> hd bs \<noteq> ''..''"
  shows "''..'' \<notin> set bs"
proof
  assume a: "''..'' \<in> set bs"
  then obtain b rest where bs: "bs = b # rest" by (cases bs) auto
  with assms(2) have b: "b \<noteq> ''..''" by simp
  with a bs have r: "''..'' \<in> set rest" by simp
  have "''..'' \<in> set (dropWhile (\<lambda>e. e = ''..'') (cs @ b # rest))"
    using b r by (auto simp: dropWhile_append dest: set_dropWhileD)
  with assms(1) bs show False by (simp add: valid_def)
qed

lemma Rel_elems:
  assumes rel: "Rel p k = Inr n" and ne: "Clean k \<noteq> Clean p"
  shows "isRooted k = isRooted p
    \<and> (\<exists>bs' ts'. dropCommon (norm (isRooted p) (elems p)) (norm (isRooted k) (elems k))
                    = (bs', ts')
          \<and> (bs' \<noteq> [] \<longrightarrow> hd bs' \<noteq> ''..'')
          \<and> n = joined (replicate (length bs') ''..'' @ ts'))"
proof -
  define rp where "rp = isRooted p"
  define rk where "rk = isRooted k"
  define bsk where "bsk = norm rp (elems p)"
  define tsk where "tsk = norm rk (elems k)"
  define B where "B = rend rp bsk"
  define T where "T = rend rk tsk"
  have vb: "valid rp bsk" and vt: "valid rk tsk" by (simp_all add: bsk_def tsk_def valid_norm)
  note okb = valid_ok [OF vb] and okt = valid_ok [OF vt]
  have cp: "Clean p = fin B" and ck: "Clean k = fin T"
    by (simp_all add: Clean_abs B_def T_def bsk_def tsk_def rp_def rk_def)
  have Bq: "(if Clean p = ''.'' then [] else Clean p) = B"
    unfolding cp B_def by (rule unfin [OF vb])
  have Tq: "(if Clean k = ''.'' then [] else Clean k) = T"
    unfolding ck T_def by (rule unfin [OF vt])
  have sb: "(length B > 0 \<and> hd B = Separator) = rp"
    using isRooted_rend [OF okb, of rp] by (simp add: B_def isRooted_def)
  have st: "(length T > 0 \<and> hd T = Separator) = rk"
    using isRooted_rend [OF okt, of rk] by (simp add: T_def isRooted_def)
  obtain b0 bi t0 ti where l: "relLoop B T (0, 0, 0, 0) = (b0, bi, t0, ti)"
    by (cases "relLoop B T (0, 0, 0, 0)") auto
  obtain bs' ts' where d: "dropCommon bsk tsk = (bs', ts')"
    by (cases "dropCommon bsk tsk") auto
  from rel ne have same: "rk = rp"
    unfolding Rel_def Let_def Bq Tq sb st by (auto split: if_splits)
  from rel ne l have res: "slice B b0 bi \<noteq> ''..''"
    "n = (if b0 \<noteq> length B then
            ''..'' @ concat (replicate (count_list (slice B b0 (length B)) Separator)
                               (Separator # ''..''))
              @ (if t0 \<noteq> length T then Separator # drop t0 T else [])
          else drop t0 T)"
    unfolding Rel_def Let_def Bq Tq sb st by (auto split: if_splits)
  have c: "b0 \<le> length B \<and> drop b0 B = joined bs'
       \<and> t0 \<le> length T \<and> drop t0 T = joined ts'
       \<and> slice B b0 bi = (if bs' = [] then [] else hd bs')"
  proof (cases rp)
    case False
    with same have "B = [] @ joined bsk" "T = [] @ joined tsk" by (simp_all add: B_def T_def rend_def)
    with relLoop_common [OF okb okt _ d, of "[]" "[]" b0 bi t0 ti] l show ?thesis by simp
  next
    case True
    with same have q: "B = [Separator] @ joined bsk" "T = [Separator] @ joined tsk"
      by (simp_all add: B_def T_def rend_def)
    with l relLoop_rooted [of "joined bsk" "joined tsk"]
    have "relLoop ([Separator] @ joined bsk) ([Separator] @ joined tsk)
        (length [Separator], length [Separator], length [Separator], length [Separator])
        = (b0, bi, t0, ti)" by simp
    from relLoop_common [OF okb okt this d] q show ?thesis by simp
  qed
  from dropCommon_split [OF d] obtain cs where cs: "bsk = cs @ bs'" "tsk = cs @ ts'" by blast
  from cs okb okt have ok': "\<forall>e\<in>set bs'. okElem e" "\<forall>e\<in>set ts'. okElem e" by auto
  from c have b0: "(b0 \<noteq> length B) = (bs' \<noteq> [])"
    using joined_Nil_iff [OF ok'(1)] by auto
  from c have t0: "(t0 \<noteq> length T) = (ts' \<noteq> [])"
    using joined_Nil_iff [OF ok'(2)] by auto
  have "slice B b0 (length B) = drop b0 B" by (simp add: slice_def)
  with c have sl: "slice B b0 (length B) = joined bs'" by simp
  have hd: "bs' \<noteq> [] \<longrightarrow> hd bs' \<noteq> ''..''" using c res(1) by auto
  have "n = joined (replicate (length bs') ''..'' @ ts')"
  proof (cases "bs' = []")
    case True
    with res(2) b0 c show ?thesis by simp
  next
    case False
    then obtain m where m: "length bs' = Suc m" by (cases bs') auto
    from False have "count_list (joined bs') Separator = m"
      using count_sep_joined [OF ok'(1)] m by simp
    with res(2) b0 t0 c sl False m show ?thesis
      by (auto simp: joined_append joined_ups simp del: replicate_Suc)
  qed
  with same hd d show ?thesis
    unfolding rp_def rk_def bsk_def tsk_def by auto
qed

subsection \<open>Joining a base path and a relative path\<close>

lemma Clean_dot: "Clean ''.'' = ''.''"
  by code_simp

lemma Clean_idem: "Clean (Clean s) = Clean s"
proof -
  define r where "r = isRooted s"
  define st where "st = norm r (elems s)"
  have v: "valid r st" by (simp add: st_def valid_norm)
  have c: "Clean s = fin (rend r st)" by (simp add: Clean_abs r_def st_def)
  show ?thesis
  proof (cases "rend r st = []")
    case True
    with c show ?thesis by (simp add: fin_def Clean_dot)
  next
    case False
    with c have q: "Clean s = rend r st" by (simp add: fin_def)
    have "Clean (rend r st) = fin (rend r st)"
      by (simp add: Clean_abs isRooted_rend [OF valid_ok [OF v]] elems_rend [OF valid_ok [OF v]]
          norm_valid_id [OF v])
    with q c show ?thesis by simp
  qed
qed

lemma isRooted_append: "p \<noteq> [] \<Longrightarrow> isRooted (p @ q) = isRooted p"
  by (simp add: isRooted_def)

lemma Clean_append:
  "p \<noteq> [] \<Longrightarrow>
     Clean (p @ Separator # n)
       = fin (rend (isRooted p)
           (foldl (step (isRooted p)) (norm (isRooted p) (elems p)) (elems n)))"
  by (simp add: Clean_abs isRooted_append elems_append_sep norm_def)

lemma Join_Rel:
  assumes rel: "Rel p k = Inr n"
  shows "Join [p, n] = Clean k"
proof (cases "Clean k = Clean p")
  case True
  with rel have n: "n = ''.''" by (simp add: Rel_def Let_def)
  show ?thesis
  proof (cases "p = []")
    case True
    with \<open>Clean k = Clean p\<close> have "Clean k = ''.''" by (simp add: Clean_def)
    with True n show ?thesis by (simp add: Clean_dot)
  next
    case False
    have "okElem ''.''" by (simp add: okElem_def Separator_def)
    then have "elems ''.'' = [''.'']" by simp
    with False have "Clean (p @ Separator # ''.'') = Clean p"
      by (simp add: Clean_append step_dot) (simp add: Clean_abs)
    with False n True show ?thesis by simp
  qed
next
  case ne: False
  define rp where "rp = isRooted p"
  define bsk where "bsk = norm rp (elems p)"
  define tsk where "tsk = norm rp (elems k)"
  from Rel_elems [OF rel ne] obtain bs' ts' where
    rk: "isRooted k = rp" and d: "dropCommon bsk tsk = (bs', ts')"
    and hd: "bs' \<noteq> [] \<longrightarrow> hd bs' \<noteq> ''..''"
    and n: "n = joined (replicate (length bs') ''..'' @ ts')"
    unfolding rp_def bsk_def tsk_def by auto
  have vb: "valid rp bsk" and vt: "valid rp tsk" by (simp_all add: bsk_def tsk_def valid_norm)
  have ck: "Clean k = fin (rend rp tsk)" by (simp add: Clean_abs rk tsk_def)
  from dropCommon_split [OF d] obtain cs where cs: "bsk = cs @ bs'" "tsk = cs @ ts'" by blast
  from cs valid_ok [OF vt] have okt: "\<forall>e\<in>set ts'. okElem e" by auto
  have oku: "\<forall>e\<in>set (replicate (length bs') ''..'' @ ts'). okElem e"
    using okt okElem_dotdot by auto
  have en: "elems n = replicate (length bs') ''..'' @ ts'"
    unfolding n by (rule elems_joined [OF oku])
  have nodd: "''..'' \<notin> set bs'"
    using valid_rest_no_dotdot [of rp cs bs'] vb hd cs by simp
  have f: "foldl (step rp) bsk (elems n) = tsk"
    unfolding en cs foldl_append foldl_pops [OF nodd]
    using foldl_valid_id [of rp cs ts'] vt cs by simp
  show ?thesis
  proof (cases "p = []")
    case True
    then have "bsk = []" by (simp add: bsk_def norm_def)
    with d have "bs' = []" "ts' = tsk" by simp_all
    with n have nj: "n = joined tsk" by simp
    from True have rpF: "\<not> rp" by (simp add: rp_def isRooted_def)
    from True have "Clean p = ''.''" by (simp add: Clean_def)
    with ne ck rpF have "joined tsk \<noteq> []" by (auto simp: fin_def rend_def)
    with ck rpF nj have kn: "Clean k = n" "n \<noteq> []" by (simp_all add: fin_def rend_def)
    from kn have "Clean n = n" using Clean_idem [of k] by simp
    with True kn show ?thesis by simp
  next
    case False
    then have "Join [p, n] = Clean (p @ Separator # n)" by simp
    also have "\<dots> = fin (rend rp (foldl (step rp) bsk (elems n)))"
      using Clean_append [OF False, of n] by (simp add: rp_def bsk_def)
    also have "\<dots> = Clean k" by (simp add: f ck)
    finally show ?thesis .
  qed
qed

section \<open>The Remote Lister\<close>

lemma listS3Loop_pagesThenFailure:
  "pagesThenFailure m pth token w pages e wEnd \<Longrightarrow> length pages < fuel \<Longrightarrow>
     listS3Loop fuel m pth token w =
       Some (concat (map (\<lambda>page. listContents pth (Contents page)) pages)
               @ sendErrorInfoToChannel e, wEnd)"
proof (induction pages arbitrary: token w fuel)
  case Nil
  then obtain n where "fuel = Suc n" by (cases fuel) auto
  with Nil show ?case by (simp add: listS3FileWithToken_def)
next
  case (Cons page pages)
  from Cons.prems(2) obtain n where n: "fuel = Suc n" "length pages < n"
    by (cases fuel) auto
  from Cons.prems(1) obtain w' t where
    call: "ListObjectsV2 m
             \<lparr>Bucket = bucket pth, Prefix = bucketPrefix pth, ContinuationToken = token\<rparr> w
           = (Inr page, w')"
    and t: "NextContinuationToken page = Some t"
    and rest: "pagesThenFailure m pth (Some t) w' pages e wEnd"
    by (auto split: prod.splits sum.splits)
  from Cons.IH [OF rest n(2)] call t n(1) show ?case
    by (simp add: listS3FileWithToken_def)
qed

text \<open>
  C6. If the listing capability serves the pages \<open>pages\<close> and then fails a request,
  the Remote Lister returns (given more page requests than \<open>length pages\<close> to spend)
  the records of those pages followed by exactly one error sentinel and nothing else,
  and the world it leaves is the one right after the failed request: no request
  follows the failure.
\<close>

theorem page_failure_ends_listing:
  assumes "pagesThenFailure m pth None w pages e wEnd" and "length pages < fuel"
  shows "listS3Files fuel m pth w =
           Some (concat (map (\<lambda>page. listContents pth (Contents page)) pages)
                   @ [\<lparr>err = Some e, name = [], path = [], size' = 0, lastModified = zeroTime\<rparr>],
                 wEnd)"
  using listS3Loop_pagesThenFailure [OF assms]
  by (simp add: listS3Files_def sendErrorInfoToChannel_def zeroFileInfo_def)

theorem page_failure_ends_listing_witness:
  "pagesThenFailure exampleEnv examplePath None 0 [page1] requestFailed 2
   \<and> length [page1] < 5
   \<and> listS3Files 5 exampleEnv examplePath 0 = Some ([rA, rB, sentinel], 2)"
proof -
  have h: "pagesThenFailure exampleEnv examplePath None 0 [page1] requestFailed 2"
    by (simp add: exampleEnv_def page1_def)
  have l: "length [page1] < 5" by simp
  have c: "listContents examplePath (Contents page1) = [rA, rB]"
    by code_simp
  from page_failure_ends_listing [OF h l] c h show ?thesis
    by (simp add: sentinel_def)
qed

lemma listContents_Rel:
  "r \<in> set (listContents pth objects) \<Longrightarrow> err r = None \<Longrightarrow>
     Rel (bucketPrefix pth) (path r) = Inr (name r)"
proof (induction objects)
  case Nil
  then show ?case by simp
next
  case (Cons object objects)
  show ?case
  proof (cases "Rel (bucketPrefix pth) (Key object)")
    case (Inl e)
    with Cons show ?thesis
      by (auto simp: sendErrorInfoToChannel_def zeroFileInfo_def)
  next
    case (Inr nm)
    with Cons show ?thesis by auto
  qed
qed

lemma listS3FileWithToken_Rel:
  assumes "listS3FileWithToken m pth token w = (c, t, w')" and "r \<in> set c" and "err r = None"
  shows "Rel (bucketPrefix pth) (path r) = Inr (name r)"
proof (cases "fst (ListObjectsV2 m
         \<lparr>Bucket = bucket pth, Prefix = bucketPrefix pth, ContinuationToken = token\<rparr> w)")
  case (Inl e)
  with assms show ?thesis
    by (auto simp: listS3FileWithToken_def sendErrorInfoToChannel_def zeroFileInfo_def
        split: prod.splits)
next
  case (Inr list)
  with assms have "r \<in> set (listContents pth (Contents list))"
    by (auto simp: listS3FileWithToken_def split: prod.splits)
  from listContents_Rel [OF this assms(3)] show ?thesis .
qed

lemma listS3Loop_Rel:
  "listS3Loop fuel m pth token w = Some (rs, w') \<Longrightarrow> r \<in> set rs \<Longrightarrow> err r = None \<Longrightarrow>
     Rel (bucketPrefix pth) (path r) = Inr (name r)"
proof (induction fuel arbitrary: token w rs)
  case 0
  then show ?case by simp
next
  case (Suc fuel)
  obtain c t w1 where s: "listS3FileWithToken m pth token w = (c, t, w1)"
    by (cases "listS3FileWithToken m pth token w") auto
  show ?case
  proof (cases t)
    case None
    with Suc.prems s have "r \<in> set c" by simp
    from listS3FileWithToken_Rel [OF s this Suc.prems(3)] show ?thesis .
  next
    case (Some tok)
    with Suc.prems(1) s obtain c' where
      l: "listS3Loop fuel m pth (Some tok) w1 = Some (c', w')" and rs: "rs = c @ c'"
      by (auto split: option.splits)
    from Suc.prems(2) rs have "r \<in> set c \<or> r \<in> set c'" by simp
    then show ?thesis
    proof
      assume "r \<in> set c"
      from listS3FileWithToken_Rel [OF s this Suc.prems(3)] show ?thesis .
    next
      assume "r \<in> set c'"
      from Suc.IH [OF l this Suc.prems(3)] show ?thesis .
    qed
  qed
qed

section \<open>The Local Lister\<close>

lemma filterFilesForSync_empty_local: "filterFilesForSync sourceFileChan [] = sourceFileChan"
  by (simp add: filterFilesForSync_def fileInfoChanToMap_def filterLoop_filter)

text \<open>
  C7. If \<^verbatim>\<open>os.Stat\<close> of the root reports that it does not exist, the Local Lister
  sends nothing: no record and no error sentinel. The Diff Filter then sees an empty
  local tree and forwards every remote record.
\<close>

theorem missing_root_is_empty:
  assumes "os_Stat m (filepath_ToSlash basePath) w = (Inl e, w1)" and "os_IsNotExist e"
  shows "listLocalFiles m basePath w = ([], w1)
    \<and> filterFilesForSync sourceFileChan (fst (listLocalFiles m basePath w)) = sourceFileChan"
  using assms by (simp add: listLocalFiles_def filterFilesForSync_empty_local)

theorem missing_root_is_empty_witness:
  "os_Stat exampleEnv (filepath_ToSlash ''/local'') 0
     = (Inl (GoError True ''stat: no such file or directory''), 1)
   \<and> os_IsNotExist (GoError True ''stat: no such file or directory'')
   \<and> listLocalFiles exampleEnv ''/local'' 0 = ([], 1)"
proof -
  have h: "os_Stat exampleEnv (filepath_ToSlash ''/local'') 0
     = (Inl (GoError True ''stat: no such file or directory''), 1)"
    by (simp add: exampleEnv_def filepath_ToSlash_def)
  have n: "os_IsNotExist (GoError True ''stat: no such file or directory'')"
    by (simp add: os_IsNotExist_def)
  from missing_root_is_empty [OF h n, of "[]"] h n show ?thesis by simp
qed

text \<open>
  C10, as stated, fails in its last part: the record named \<^verbatim>\<open>.\<close> of a regular-file
  root also matches the remote record of a key that differs from the prefix, here the
  key \<^verbatim>\<open>pre/\<close> under the prefix \<^verbatim>\<open>pre\<close>; the two records agree in size and time,
  and the filter, finding the match, forwards nothing.
\<close>

theorem regular_file_root_counterexample:
  "listLocalFiles exampleEnv ''/local/file'' 0 =
     ([\<lparr>err = None, name = ''.'', path = ''/local/file'', size' = 10, lastModified = 100\<rparr>], 1)
   \<and> listContents examplePath [\<lparr>Key = ''pre/'', Size = 10, LastModified = 100\<rparr>] =
       [\<lparr>err = None, name = ''.'', path = ''pre/'', size' = 10, lastModified = 100\<rparr>]
   \<and> ''pre/'' \<noteq> bucketPrefix examplePath
   \<and> filterFilesForSync
         (listContents examplePath [\<lparr>Key = ''pre/'', Size = 10, LastModified = 100\<rparr>])
         (fst (listLocalFiles exampleEnv ''/local/file'' 0)) = []"
  by code_simp

text \<open>
  C10, amended. When the root exists and is no directory, the Local Lister sends
  exactly one record, named \<^verbatim>\<open>.\<close>; and the record the Remote Lister sends for an
  object has that name exactly when the object's key and the prefix have the same
  cleaned path. So the local record can only match a remote record whose key cleans
  to the same path as the prefix: the prefix itself, or for instance the prefix
  followed by a slash.
\<close>

theorem regular_file_root_single_record:
  assumes "os_Stat m (filepath_ToSlash basePath) w = (Inr stat, w1)" and "\<not> IsDir stat"
  shows "listLocalFiles m basePath w =
           ([\<lparr>err = None, name = ''.'', path = filepath_ToSlash basePath,
              size' = statSize stat, lastModified = ModTime stat\<rparr>], w1)
    \<and> (\<forall>pth object.
          (\<exists>r\<in>set (listContents pth [object]). name r = ''.'')
          = (Clean (Key object) = Clean (bucketPrefix pth)))"
proof -
  have 1: "listLocalFiles m basePath w =
           ([\<lparr>err = None, name = ''.'', path = filepath_ToSlash basePath,
              size' = statSize stat, lastModified = ModTime stat\<rparr>], w1)"
    using assms by (simp add: listLocalFiles_def sendFileInfoToChannel_def Rel_same)
  have 2: "(\<exists>r\<in>set (listContents pth [object]). name r = ''.'')
          = (Clean (Key object) = Clean (bucketPrefix pth))" for pth object
  proof (cases "Rel (bucketPrefix pth) (Key object)")
    case (Inl e)
    with Rel_dot_iff [of "bucketPrefix pth" "Key object"] show ?thesis
      by (auto simp: sendErrorInfoToChannel_def zeroFileInfo_def)
  next
    case (Inr nm)
    with Rel_dot_iff [of "bucketPrefix pth" "Key object"] show ?thesis
      by auto
  qed
  from 1 2 show ?thesis by blast
qed

theorem regular_file_root_single_record_witness:
  "os_Stat exampleEnv (filepath_ToSlash ''/local/file'') 0
     = (Inr \<lparr>IsDir = False, statSize = 10, ModTime = 100\<rparr>, 1)
   \<and> \<not> IsDir \<lparr>IsDir = False, statSize = 10, ModTime = 100\<rparr>
   \<and> listLocalFiles exampleEnv ''/local/file'' 0 =
       ([\<lparr>err = None, name = ''.'', path = ''/local/file'', size' = 10, lastModified = 100\<rparr>], 1)"
proof -
  have h: "os_Stat exampleEnv (filepath_ToSlash ''/local/file'') 0
     = (Inr \<lparr>IsDir = False, statSize = 10, ModTime = 100\<rparr>, 1)"
    by (simp add: exampleEnv_def filepath_ToSlash_def)
  have n: "\<not> IsDir \<lparr>IsDir = False, statSize = 10, ModTime = 100\<rparr>" by simp
  from regular_file_root_single_record [OF h n] h show ?thesis
    by (simp add: filepath_ToSlash_def)
qed

section \<open>The Fetch Pipeline and the Sync Manager\<close>

lemma strings_Join_newline: "strings_Join msgs [CHR 0x0A] = newlineJoined msgs"
proof (induction msgs rule: newlineJoined.induct)
  case (3 x y ys)
  then show ?case by (cases ys) simp_all
qed simp_all

lemma fetchTask_appends:
  "fetchTask m sourcePath destPath source errMsgs w = (errMsgs', w') \<Longrightarrow>
     errMsgs' = errMsgs \<or> (\<exists>msg. errMsgs' = errMsgs @ [msg])"
  by (auto simp: fetchTask_def split: option.splits prod.splits)

lemma runTasks_appends:
  "runTasks m sourcePath destPath sched pending errMsgs w = (errMsgs', w') \<Longrightarrow>
     \<exists>new. errMsgs' = errMsgs @ new \<and> length new \<le> length pending"
proof (induction m sourcePath destPath sched pending errMsgs w
    rule: runTasks.induct)
  case (1 m sourcePath destPath sched errMsgs w)
  then show ?case by simp
next
  case (2 m sourcePath destPath source pending errMsgs w)
  obtain e1 w1 where t: "fetchTask m sourcePath destPath source errMsgs w = (e1, w1)"
    by (cases "fetchTask m sourcePath destPath source errMsgs w") auto
  with "2.prems" have r: "runTasks m sourcePath destPath [] pending e1 w1 = (errMsgs', w')"
    by simp
  from "2.IH" [OF t [symmetric] r] obtain new where
    n: "errMsgs' = e1 @ new" "length new \<le> length pending" by blast
  from fetchTask_appends [OF t] n show ?case by auto
next
  case (3 m sourcePath destPath k sched source pending errMsgs w)
  define i where "i = k mod length (source # pending)"
  have il: "i < length (source # pending)" by (simp add: i_def)
  obtain e1 w1 where
    t: "fetchTask m sourcePath destPath ((source # pending) ! i) errMsgs w = (e1, w1)"
    by (cases "fetchTask m sourcePath destPath ((source # pending) ! i) errMsgs w") auto
  with "3.prems" have r: "runTasks m sourcePath destPath sched
      (take i (source # pending) @ drop (Suc i) (source # pending)) e1 w1 = (errMsgs', w')"
    by (simp add: i_def Let_def)
  from "3.IH" [OF i_def t [symmetric] r] obtain new where
    n: "errMsgs' = e1 @ new"
      "length new \<le> length (take i (source # pending) @ drop (Suc i) (source # pending))"
    by blast
  from il have "length (take i (source # pending) @ drop (Suc i) (source # pending))
      = length pending" by auto
  with fetchTask_appends [OF t] n show ?case by auto
qed

text \<open>
  C3. Once the fetch tasks have all run, leaving the messages \<open>errMsgs\<close> in the order
  they were appended, \<open>syncS3ToLocal\<close> returns nil if there is none and otherwise one
  error whose text is the messages joined by newlines, in that order; and so does
  \<open>Sync\<close>, which for a remote source and a local destination returns what
  \<open>syncS3ToLocal\<close> returns.
\<close>

theorem sync_returns_joined_errors:
  assumes "listS3Files fuel m sourcePath w = Some (sourceFileChan, w1)"
    and "listLocalFiles m destPath w1 = (destFileChan, w2)"
    and "runTasks m sourcePath destPath sched
           (filterFilesForSync sourceFileChan destFileChan) [] w2 = (errMsgs, w3)"
  shows "syncS3ToLocal m sched fuel sourcePath destPath w =
           Some (if errMsgs = [] then None else Some (errors_New (newlineJoined errMsgs)), w3)
    \<and> (url_Parse m source = Inr sourceURL \<and> url_Parse m destPath = Inr destURL
         \<and> isS3URL sourceURL \<and> \<not> isS3URL destURL \<and> urlToS3Path sourceURL = Inr sourcePath
       \<longrightarrow> Sync m sched fuel source destPath w =
             Some (if errMsgs = [] then None else Some (errors_New (newlineJoined errMsgs)),
                   w3))"
  using assms by (simp add: syncS3ToLocal_def Sync_def strings_Join_newline)

theorem sync_returns_joined_errors_witness:
  "syncS3ToLocal exampleEnv [1] 5 examplePath ''/local'' 0 =
     Some (Some (errors_New (''NoSuchKey'' @ [CHR 0x0A] @ ''RequestError: send request failed'')),
           9)
   \<and> Sync exampleEnv [1] 5 ''s3://example-bucket/pre'' ''/local'' 0 =
     Some (Some (errors_New (''NoSuchKey'' @ [CHR 0x0A] @ ''RequestError: send request failed'')),
           9)"
proof -
  have h1: "listS3Files 5 exampleEnv examplePath 0 = Some ([rA, rB, sentinel], 2)"
    by code_simp
  have h2: "listLocalFiles exampleEnv ''/local'' 2 = ([], 3)"
    by code_simp
  have h3: "runTasks exampleEnv examplePath ''/local'' [1]
              (filterFilesForSync [rA, rB, sentinel] []) [] 3
            = ([''NoSuchKey'', ''RequestError: send request failed''], 9)"
    by code_simp
  have u: "url_Parse exampleEnv ''s3://example-bucket/pre''
             = Inr \<lparr>Scheme = ''s3'', Host = ''example-bucket'', Path = ''/pre''\<rparr>
      \<and> url_Parse exampleEnv ''/local'' = Inr \<lparr>Scheme = [], Host = [], Path = ''/local''\<rparr>
      \<and> isS3URL \<lparr>Scheme = ''s3'', Host = ''example-bucket'', Path = ''/pre''\<rparr>
      \<and> \<not> isS3URL \<lparr>Scheme = [], Host = [], Path = ''/local''\<rparr>
      \<and> urlToS3Path \<lparr>Scheme = ''s3'', Host = ''example-bucket'', Path = ''/pre''\<rparr>
          = Inr examplePath"
    by (simp add: exampleEnv_def isS3URL_def urlToS3Path_def strings_TrimPrefix_def
        examplePath_def)
  from sync_returns_joined_errors [OF h1 h2 h3,
      of "''s3://example-bucket/pre''"
         "\<lparr>Scheme = ''s3'', Host = ''example-bucket'', Path = ''/pre''\<rparr>"
         "\<lparr>Scheme = [], Host = [], Path = ''/local''\<rparr>"] u
  show ?thesis by simp
qed

text \<open>
  C8. When both addresses parse and the direction is not remote to local, \<open>Sync\<close>
  returns an error that says what is wrong, and the world is untouched: no capability
  is called.
\<close>

theorem unsupported_direction_fails:
  assumes "url_Parse m source = Inr sourceURL" and "url_Parse m dest = Inr destURL"
    and "isS3URL destURL \<or> \<not> isS3URL sourceURL"
  shows "Sync m sched fuel source dest w =
           Some (Some (errors_New
                   (if isS3URL sourceURL then
                      (if Host sourceURL = [] \<or> Host destURL = []
                       then ''s3 url is missing bucket name''
                       else ''S3 to S3 sync feature is not implemented'')
                    else if isS3URL destURL then
                      (if Host destURL = [] then ''s3 url is missing bucket name''
                       else ''Local to S3 sync feature is not implemented'')
                    else ''local to local sync is not supported'')), w)"
  using assms
  by (auto simp: Sync_def urlToS3Path_def syncS3ToS3_def syncLocalToS3_def)

theorem unsupported_direction_fails_witness:
  "Sync exampleEnv [] 0 ''s3://example-bucket/pre'' ''s3://example-bucket/pre'' 0
     = Some (Some (errors_New ''S3 to S3 sync feature is not implemented''), 0)
   \<and> Sync exampleEnv [] 0 ''/local'' ''s3://example-bucket/pre'' 0
     = Some (Some (errors_New ''Local to S3 sync feature is not implemented''), 0)
   \<and> Sync exampleEnv [] 0 ''/local'' ''/other'' 0
     = Some (Some (errors_New ''local to local sync is not supported''), 0)"
proof -
  have r: "url_Parse exampleEnv ''s3://example-bucket/pre''
      = Inr \<lparr>Scheme = ''s3'', Host = ''example-bucket'', Path = ''/pre''\<rparr>"
    by (simp add: exampleEnv_def)
  have l: "url_Parse exampleEnv ''/local'' = Inr \<lparr>Scheme = [], Host = [], Path = ''/local''\<rparr>"
    by (simp add: exampleEnv_def)
  have o: "url_Parse exampleEnv ''/other'' = Inr \<lparr>Scheme = [], Host = [], Path = ''/other''\<rparr>"
    by (simp add: exampleEnv_def)
  have 1: "Sync exampleEnv [] 0 ''s3://example-bucket/pre'' ''s3://example-bucket/pre'' 0
     = Some (Some (errors_New ''S3 to S3 sync feature is not implemented''), 0)"
    using unsupported_direction_fails [OF r r, of "[]" 0 0] by (simp add: isS3URL_def)
  have 2: "Sync exampleEnv [] 0 ''/local'' ''s3://example-bucket/pre'' 0
     = Some (Some (errors_New ''Local to S3 sync feature is not implemented''), 0)"
    using unsupported_direction_fails [OF l r, of "[]" 0 0] by (simp add: isS3URL_def)
  have 3: "Sync exampleEnv [] 0 ''/local'' ''/other'' 0
     = Some (Some (errors_New ''local to local sync is not supported''), 0)"
    using unsupported_direction_fails [OF l o, of "[]" 0 0] by (simp add: isS3URL_def)
  from 1 2 3 show ?thesis by simp
qed

lemma download_request:
  assumes "os_MkdirAll m (Dir (Join [destPath, name file])) w = (None, w1)"
    and "os_Create m (Join [destPath, name file]) w1 = (None, w2)"
  shows "download m file sourcePath destPath w =
           Download m (Join [destPath, name file])
             \<lparr>getBucket = bucket sourcePath,
              getKey = Join [bucketPrefix sourcePath, name file]\<rparr> w2"
  using assms unfolding download_def Let_def
  by (auto split: prod.splits option.splits)

text \<open>
  C9. Let \<open>r\<close> be a record of an object (not an error sentinel) that the Remote Lister
  emits for the prefix \<open>bucketPrefix pth\<close>. Its name is the result of \<^verbatim>\<open>filepath.Rel\<close>
  of the prefix and the object's key \<open>path r\<close>, and joining the prefix and that name
  gives the cleaned key. So, once the target directory and file are created, the
  download operation requests the key \<open>Clean (path r)\<close> from the bucket, and for a
  key that is already clean it requests exactly the key that was listed.
\<close>

theorem download_requests_cleaned_key:
  assumes "listS3Files fuel m pth w = Some (rs, w')" and "r \<in> set rs" and "err r = None"
    and "os_MkdirAll m (Dir (Join [destPath, name r])) v = (None, v1)"
    and "os_Create m (Join [destPath, name r]) v1 = (None, v2)"
  shows "Rel (bucketPrefix pth) (path r) = Inr (name r)
       \<and> Join [bucketPrefix pth, name r] = Clean (path r)
       \<and> download m r pth destPath v =
           Download m (Join [destPath, name r])
             \<lparr>getBucket = bucket pth, getKey = Clean (path r)\<rparr> v2
       \<and> (Clean (path r) = path r \<longrightarrow>
            download m r pth destPath v =
              Download m (Join [destPath, name r])
                \<lparr>getBucket = bucket pth, getKey = path r\<rparr> v2)"
proof -
  from assms(1) have "listS3Loop fuel m pth None w = Some (rs, w')"
    by (simp add: listS3Files_def)
  from listS3Loop_Rel [OF this assms(2,3)]
  have rel: "Rel (bucketPrefix pth) (path r) = Inr (name r)" .
  from Join_Rel [OF rel] have j: "Join [bucketPrefix pth, name r] = Clean (path r)" .
  from download_request [OF assms(4,5), of pth] j rel show ?thesis by simp
qed

theorem download_requests_cleaned_key_witness:
  "listS3Files 5 exampleEnv examplePath 0 = Some ([rA, rB, sentinel], 2)
   \<and> rA \<in> set [rA, rB, sentinel] \<and> err rA = None
   \<and> os_MkdirAll exampleEnv (Dir (Join [''/local'', name rA])) 2 = (None, 3)
   \<and> os_Create exampleEnv (Join [''/local'', name rA]) 3 = (None, 4)
   \<and> Rel (bucketPrefix examplePath) (path rA) = Inr (name rA)
   \<and> Join [bucketPrefix examplePath, name rA] = ''pre/a.txt''
   \<and> Clean (path rA) = path rA
   \<and> download exampleEnv rA examplePath ''/local'' 2 =
       Download exampleEnv ''/local/a.txt''
         \<lparr>getBucket = ''example-bucket'', getKey = ''pre/a.txt''\<rparr> 4
   \<and> download exampleEnv rA examplePath ''/local'' 2 = (None, 5)"
proof -
  have l: "listS3Files 5 exampleEnv examplePath 0 = Some ([rA, rB, sentinel], 2)"
    by code_simp
  have i: "rA \<in> set [rA, rB, sentinel]" by simp
  have e: "err rA = None" by (simp add: rA_def)
  have d: "os_MkdirAll exampleEnv (Dir (Join [''/local'', name rA])) 2 = (None, 3)"
    by (simp add: exampleEnv_def)
  have c: "os_Create exampleEnv (Join [''/local'', name rA]) 3 = (None, 4)"
    by (simp add: exampleEnv_def)
  have k: "Clean (path rA) = ''pre/a.txt''" "path rA = ''pre/a.txt''"
    "Join [''/local'', name rA] = ''/local/a.txt''" "bucket examplePath = ''example-bucket''"
    by code_simp+
  have g: "Download exampleEnv ''/local/a.txt''
         \<lparr>getBucket = ''example-bucket'', getKey = ''pre/a.txt''\<rparr> 4 = (None, 5)"
    by (simp add: exampleEnv_def)
  from download_requests_cleaned_key [OF l i e d c] k g l i e d c show ?thesis
    by simp
qed

end
